theory Spec2Isabelle
  imports Complex_Main
begin

section \<open>Rebinning of 1-D series, spectral cubes and 2-D planes (modules/rebin.py)\<close>

text \<open>
  A shallow embedding of \<^verbatim>\<open>rebin1d\<close>, \<^verbatim>\<open>rebin_cube_1d\<close> and \<^verbatim>\<open>frebin2d\<close>.

  Numbers: the source computes in float64. The embedding computes in exact arithmetic
  (\<^typ>\<open>real\<close>), so every statement below is about the algorithm without rounding.
  The one float behaviour that exact arithmetic lacks and the code can reach is a numpy
  division by zero, which yields nan or inf (with a warning, no exception): array
  elements that come out of a numpy division are therefore \<open>npfloat\<close>, with
  \<open>NonFinite\<close> for that outcome.

  Arrays: a 1-D numpy array is a list, a 2-D array the list of its rows, a 3-D array a
  record of its two trailing extents and the list of its planes. Python exceptions are
  values of \<open>error\<close>; a function that may raise returns \<open>error + 'a\<close>.
  The progress bar (tqdm) only prints and is left out.
\<close>

subsection \<open>Python and numpy primitives\<close>

text \<open>\<open>InvalidGrid\<close> is the error the specification names; no path of the source raises it.\<close>

datatype error = IndexError | ValueError | ZeroDivisionError | InvalidGrid

datatype npfloat = Fin real | NonFinite

definition np_div :: "real \<Rightarrow> real \<Rightarrow> npfloat" where
  "np_div a b = (if b = 0 then NonFinite else Fin (a / b))"

definition bindE :: "error + 'a \<Rightarrow> ('a \<Rightarrow> error + 'b) \<Rightarrow> error + 'b" where
  "bindE m f = (case m of Inl e \<Rightarrow> Inl e | Inr v \<Rightarrow> f v)"

text \<open>A Python loop that fills one output slot per iteration and stops at the first exception.\<close>

fun mapE :: "('a \<Rightarrow> error + 'b) \<Rightarrow> 'a list \<Rightarrow> error + 'b list" where
  "mapE f [] = Inr []"
| "mapE f (x # xs) = bindE (f x) (\<lambda>y. bindE (mapE f xs) (\<lambda>ys. Inr (y # ys)))"

text \<open>Python's \<^verbatim>\<open>int(r)\<close> on a float truncates towards zero.\<close>

definition py_int :: "real \<Rightarrow> int" where
  "py_int r = (if 0 \<le> r then \<lfloor>r\<rfloor> else \<lceil>r\<rceil>)"

text \<open>Indexing \<^verbatim>\<open>xs[i]\<close>: a negative index counts from the end, out of range raises.\<close>

definition py_get :: "'a list \<Rightarrow> int \<Rightarrow> error + 'a" where
  "py_get xs i =
     (if 0 \<le> i \<and> i < int (length xs) then Inr (xs ! nat i)
      else if i < 0 \<and> - int (length xs) \<le> i then Inr (xs ! nat (int (length xs) + i))
      else Inl IndexError)"

text \<open>Slicing \<^verbatim>\<open>xs[a:b]\<close>: bounds are wrapped and clipped, never an exception.\<close>

definition py_slice :: "'a list \<Rightarrow> int \<Rightarrow> int \<Rightarrow> 'a list" where
  "py_slice xs a b =
     (let n = int (length xs);
          a' = (if a < 0 then max 0 (n + a) else min a n);
          b' = (if b < 0 then max 0 (n + b) else min b n)
      in take (nat (b' - a')) (drop (nat a') xs))"

text \<open>\<^verbatim>\<open>range(len(xin))\<close> as numpy converts it: the floats 0, 1, ..., n - 1.\<close>

definition np_range :: "nat \<Rightarrow> real list" where
  "np_range n = map real [0..<n]"

text \<open>
  \<^verbatim>\<open>np.interp(x, xp, fp)\<close> at one point, after numpy's argument checks. numpy locates
  the last sample \<open>xp[j] \<le> x\<close> (for increasing \<open>xp\<close>, the only case it documents); below
  the first sample it returns \<open>fp[0]\<close>, at or above the last one \<open>fp[-1]\<close>, on a sample
  its value, and between two samples the point on the chord.
\<close>

definition interp_at :: "real \<Rightarrow> real list \<Rightarrow> real list \<Rightarrow> real" where
  "interp_at x xp fp =
     (let j = length (takeWhile (\<lambda>a. a \<le> x) xp)
      in if j = 0 then fp ! 0
         else if j = length xp then fp ! (j - 1)
         else if xp ! (j - 1) = x then fp ! (j - 1)
         else (fp ! j - fp ! (j - 1)) / (xp ! j - xp ! (j - 1)) * (x - xp ! (j - 1))
              + fp ! (j - 1))"

text \<open>numpy raises ValueError for an empty \<open>xp\<close> and for \<open>fp\<close> of another length.\<close>

definition np_interp1 :: "real \<Rightarrow> real list \<Rightarrow> real list \<Rightarrow> error + real" where
  "np_interp1 x xp fp =
     (if xp = [] then Inl ValueError
      else if length fp \<noteq> length xp then Inl ValueError
      else Inr (interp_at x xp fp))"

definition np_interp :: "real list \<Rightarrow> real list \<Rightarrow> real list \<Rightarrow> error + real list" where
  "np_interp xs xp fp =
     (if xp = [] then Inl ValueError
      else if length fp \<noteq> length xp then Inl ValueError
      else Inr (map (\<lambda>x. interp_at x xp fp) xs))"

subsection \<open>Regime selection and the bin of one output sample\<close>

text \<open>
  Lines 39-42 of \<^verbatim>\<open>rebin1d\<close>, repeated as lines 95-98 of \<^verbatim>\<open>rebin_cube_1d\<close>: the
  pair \<open>(dx_in, dx_out)\<close>, or the exception raised on the way.
\<close>

definition spacings :: "real list \<Rightarrow> real list \<Rightarrow> error + (real \<times> real)" where
  "spacings xout xin =
     bindE (py_get xout 0) (\<lambda>x0.
     bindE (np_interp1 x0 xin (np_range (length xin))) (\<lambda>r0.
     let in0 = py_int r0 in
     bindE (py_get xin (in0 + 1)) (\<lambda>hi.
     bindE (py_get xin in0) (\<lambda>lo.
     bindE (py_get xout 1) (\<lambda>x1.
     bindE (py_get xout 0) (\<lambda>x0'.
     Inr (hi - lo, x1 - x0')))))))"

record bin =
  rstart :: real
  istart :: int
  rstop :: real
  istop :: int
  frac1 :: real
  frac2 :: real

text \<open>
  Lines 56-69 of \<^verbatim>\<open>rebin1d\<close>, repeated as lines 116-129 of \<^verbatim>\<open>rebin_cube_1d\<close>:
  \<open>in_i\<close> holds the fractional input index of the left edge of every output bin,
  \<open>n_out = len(xout)\<close>, \<open>n_in = len(xin)\<close>.
\<close>

definition box_bin :: "real list \<Rightarrow> nat \<Rightarrow> nat \<Rightarrow> nat \<Rightarrow> error + bin" where
  "box_bin in_i n_out n_in i =
     bindE (py_get in_i (int i)) (\<lambda>rstart'.
     bindE (if int i < int n_out - 1 then py_get in_i (int i + 1)
            else bindE (py_get in_i (int i)) (\<lambda>a.
                 bindE (py_get in_i (int i)) (\<lambda>b.
                 bindE (py_get in_i (int i - 1)) (\<lambda>c. Inr (a + (b - c)))))) (\<lambda>rstop'.
     let istart' = py_int rstart';
         istop0 = py_int rstop';
         istop' = (if istop0 > int n_in - 1 then int n_in - 1 else istop0)
     in Inr \<lparr>rstart = rstart', istart = istart', rstop = rstop', istop = istop',
             frac1 = rstart' - real_of_int istart',
             frac2 = 1 - (rstop' - real_of_int istop')\<rparr>))"

subsection \<open>rebin1d\<close>

text \<open>Lines 74-77: the value of one output sample from its bin.\<close>

definition rebin1d_value :: "real list \<Rightarrow> bin \<Rightarrow> error + npfloat" where
  "rebin1d_value yin b =
     (if istart b = istop b then
        bindE (py_get yin (istart b)) (\<lambda>y.
        Inr (np_div ((1 - frac1 b - frac2 b) * y) (rstop b - rstart b)))
      else
        bindE (py_get yin (istart b)) (\<lambda>ya.
        bindE (py_get yin (istop b)) (\<lambda>yb.
        Inr (np_div (sum_list (py_slice yin (istart b) (istop b + 1))
                       - frac1 b * ya - frac2 b * yb)
                    (rstop b - rstart b)))))"

text \<open>
  Lines 47-79, the branch for a coarser output. \<^verbatim>\<open>float(dx_out)/float(dx_in)\<close> divides
  Python floats and raises on zero.
\<close>

definition rebin1d_box :: "real list \<Rightarrow> real list \<Rightarrow> real list \<Rightarrow> real \<Rightarrow> real
    \<Rightarrow> error + npfloat list" where
  "rebin1d_box xout xin yin dx_in dx_out =
     (if dx_in = 0 then Inl ZeroDivisionError
      else
        bindE (np_interp (map (\<lambda>x. x - dx_out * 0.5) xout) xin (np_range (length xin)))
          (\<lambda>in_i.
        mapE (\<lambda>i. bindE (box_bin in_i (length xout) (length xin) i) (rebin1d_value yin))
             [0..<length xout]))"

definition rebin1d :: "real list \<Rightarrow> real list \<Rightarrow> real list \<Rightarrow> error + npfloat list" where
  "rebin1d xout xin yin =
     bindE (spacings xout xin) (\<lambda>(dx_in, dx_out).
       if dx_out < dx_in then bindE (np_interp xout xin yin) (\<lambda>ys. Inr (map Fin ys))
       else rebin1d_box xout xin yin dx_in dx_out)"

subsection \<open>rebin_cube_1d\<close>

text \<open>
  A 3-D numpy array of shape \<open>(length (planes c), shape1 c, shape2 c)\<close>; the two
  trailing extents are kept because an array with no plane still has them.
\<close>

record 'a cube =
  shape1 :: nat
  shape2 :: nat
  planes :: "'a list list list"

definition wf_cube :: "'a cube \<Rightarrow> bool" where
  "wf_cube c = (\<forall>p \<in> set (planes c). length p = shape1 c \<and> (\<forall>r \<in> set p. length r = shape2 c))"

text \<open>\<^verbatim>\<open>cube[:,j,i]\<close>, the spectral vector at one spatial position.\<close>

definition spectrum :: "'a cube \<Rightarrow> nat \<Rightarrow> nat \<Rightarrow> 'a list" where
  "spectrum c j i = map (\<lambda>p. p ! j ! i) (planes c)"

text \<open>
  Line 131: one output plane from its bin. numpy adds, scales and divides the slabs
  element by element; the sum over an empty slice is a plane of zeros.
\<close>

definition cube_plane :: "real cube \<Rightarrow> bin \<Rightarrow> error + npfloat list list" where
  "cube_plane c b =
     bindE (py_get (planes c) (istart b)) (\<lambda>pa.
     bindE (py_get (planes c) (istop b)) (\<lambda>pb.
     Inr (map (\<lambda>j. map (\<lambda>i.
            np_div (sum_list (map (\<lambda>p. p ! j ! i) (py_slice (planes c) (istart b) (istop b + 1)))
                      - frac1 b * (pa ! j ! i) - frac2 b * (pb ! j ! i))
                   (rstop b - rstart b))
          [0..<shape2 c]) [0..<shape1 c])))"

text \<open>Lines 109-134, the branch for a coarser output.\<close>

definition rebin_cube_box :: "real list \<Rightarrow> real list \<Rightarrow> real cube \<Rightarrow> real \<Rightarrow> real
    \<Rightarrow> error + npfloat cube" where
  "rebin_cube_box xout xin c dx_in dx_out =
     (if dx_in = 0 then Inl ZeroDivisionError
      else
        bindE (np_interp (map (\<lambda>x. x - dx_out * 0.5) xout) xin (np_range (length xin)))
          (\<lambda>in_i.
        bindE (mapE (\<lambda>i. bindE (box_bin in_i (length xout) (length xin) i) (cube_plane c))
                 [0..<length xout]) (\<lambda>ps.
        Inr \<lparr>shape1 = shape1 c, shape2 = shape2 c, planes = ps\<rparr>)))"

text \<open>
  Lines 102-108, the branch for a finer output: the outer loop runs over the last axis, the
  inner one over the middle axis, and each interpolated vector is stored at its position.
\<close>

definition rebin_cube_interp :: "real list \<Rightarrow> real list \<Rightarrow> real cube \<Rightarrow> error + npfloat cube" where
  "rebin_cube_interp xout xin c =
     bindE (mapE (\<lambda>i. mapE (\<lambda>j. np_interp xout xin (spectrum c j i)) [0..<shape1 c])
              [0..<shape2 c]) (\<lambda>vs.
     Inr \<lparr>shape1 = shape1 c, shape2 = shape2 c,
          planes = map (\<lambda>k. map (\<lambda>j. map (\<lambda>i. Fin (vs ! i ! j ! k)) [0..<shape2 c])
                                 [0..<shape1 c]) [0..<length xout]\<rparr>)"

definition rebin_cube_1d :: "real list \<Rightarrow> real list \<Rightarrow> real cube \<Rightarrow> error + npfloat cube" where
  "rebin_cube_1d xout xin c =
     bindE (spacings xout xin) (\<lambda>(dx_in, dx_out).
       if dx_out < dx_in then rebin_cube_interp xout xin c
       else rebin_cube_box xout xin c dx_in dx_out)"

subsection \<open>frebin2d\<close>

text \<open>The number of columns of a 2-D array given as its rows (all of one length).\<close>

definition ncols :: "'a list list \<Rightarrow> nat" where
  "ncols a = (case a of [] \<Rightarrow> 0 | r # _ \<Rightarrow> length r)"

definition rect :: "'a list list \<Rightarrow> bool" where
  "rect a = (\<forall>r \<in> set a. length r = ncols a)"

text \<open>\<^verbatim>\<open>np.transpose\<close> of a 2-D array with \<open>n\<close> columns.\<close>

definition np_transpose :: "nat \<Rightarrow> 'a list list \<Rightarrow> 'a list list" where
  "np_transpose n a = map (\<lambda>j. map (\<lambda>r. r ! j) a) [0..<n]"

text \<open>
  Lines 165-182 for the rows of \<^verbatim>\<open>array\<close>, repeated as lines 191-207 for the rows of the
  transposed intermediate array: output line \<open>i\<close> of one pass over an array \<open>a\<close> with
  \<open>n\<close> columns, box ratio \<open>box\<close> and last line index \<open>last_i\<close>. The sums are not divided
  by the bin width.
\<close>

definition frebin_line :: "real list list \<Rightarrow> nat \<Rightarrow> real \<Rightarrow> int \<Rightarrow> nat \<Rightarrow> error + real list" where
  "frebin_line a n box last_i i =
     (let rstart' = real i * box;
          istart' = py_int rstart';
          rstop' = rstart' + box;
          istop0 = py_int rstop';
          istop' = (if istop0 > last_i then last_i else istop0);
          frac1' = rstart' - real_of_int istart';
          frac2' = 1 - (rstop' - real_of_int istop')
      in if istart' = istop' then
           bindE (py_get a istart') (\<lambda>r. Inr (map (\<lambda>v. (1 - frac1' - frac2') * v) r))
         else
           bindE (py_get a istart') (\<lambda>ra.
           bindE (py_get a istop') (\<lambda>rb.
           Inr (map (\<lambda>j. sum_list (map (\<lambda>r. r ! j) (py_slice a istart' (istop' + 1)))
                          - frac1' * (ra ! j) - frac2' * (rb ! j)) [0..<n]))))"

text \<open>
  \<^verbatim>\<open>frebin2d(array, shape)\<close> with \<open>shape = (sx, sy)\<close> in the source's "(x, y)" format.
  Dividing by \<^verbatim>\<open>float(shape[k])\<close> raises on zero; \<^verbatim>\<open>np.zeros\<close> raises ValueError on
  a negative extent.
\<close>

definition frebin2d :: "real list list \<Rightarrow> int \<times> int \<Rightarrow> error + npfloat list list" where
  "frebin2d array shape =
     (let sx = fst shape; sy = snd shape;
          y = length array; x = ncols array;
          y1 = int y - 1; x1 = int x - 1
      in if sx = 0 then Inl ZeroDivisionError
         else if sy = 0 then Inl ZeroDivisionError
         else
           let xbox = real x / real_of_int sx; ybox = real y / real_of_int sy
           in if sy < 0 then Inl ValueError
              else
                bindE (mapE (frebin_line array x ybox y1) [0..<nat sy]) (\<lambda>temp.
                let temp' = np_transpose x temp
                in if sx < 0 then Inl ValueError
                   else
                     bindE (mapE (frebin_line temp' (nat sy) xbox x1) [0..<nat sx]) (\<lambda>result.
                     Inr (map (map (\<lambda>v. np_div v (xbox * ybox)))
                            (np_transpose (nat sy) result)))))"

subsection \<open>The rebinners on a store\<close>

text \<open>
  The same three functions with numpy's storage made explicit: an array lives at an
  address of a heap, \<^verbatim>\<open>np.zeros\<close>, \<^verbatim>\<open>np.interp\<close> and an arithmetic expression allocate a
  new array, an indexed assignment overwrites part of the array at its address, and a
  function returns the address of its result. The element computations are the pure
  ones above, applied to the arrays as they are in the heap when the statement runs.
  \<^verbatim>\<open>np.transpose\<close> makes a view: it shares the storage of its argument. Unnamed
  temporaries of an expression are not given addresses.
\<close>

datatype ndarray =
    Vec "real list" | VecF "npfloat list"
  | Mat "real list list" | MatF "npfloat list list"
  | Cub "real cube" | CubF "npfloat cube"

text \<open>Addresses below \<open>next_addr\<close> are the ones handed out so far.\<close>

record heap =
  next_addr :: nat
  cells :: "nat \<Rightarrow> ndarray option"

definition alloc :: "ndarray \<Rightarrow> heap \<Rightarrow> nat \<times> heap" where
  "alloc v h = (next_addr h, \<lparr>next_addr = Suc (next_addr h), cells = (cells h)(next_addr h \<mapsto> v)\<rparr>)"

text \<open>Reading an argument: an address that holds no array of the expected rank raises.\<close>

definition get_vec :: "heap \<Rightarrow> nat \<Rightarrow> error + real list" where
  "get_vec h a = (case cells h a of Some (Vec xs) \<Rightarrow> Inr xs | _ \<Rightarrow> Inl ValueError)"

definition get_mat :: "heap \<Rightarrow> nat \<Rightarrow> error + real list list" where
  "get_mat h a = (case cells h a of Some (Mat m) \<Rightarrow> Inr m | _ \<Rightarrow> Inl ValueError)"

definition get_cub :: "heap \<Rightarrow> nat \<Rightarrow> error + real cube" where
  "get_cub h a = (case cells h a of Some (Cub c) \<Rightarrow> Inr c | _ \<Rightarrow> Inl ValueError)"

text \<open>\<^verbatim>\<open>temp[i] = v\<close>, \<^verbatim>\<open>temp[i,:] = r\<close>, \<^verbatim>\<open>new_cube[i,:,:] = p\<close> and \<^verbatim>\<open>new_cube[:,j,i] = ys\<close>.\<close>

definition put_elem :: "nat \<Rightarrow> nat \<Rightarrow> npfloat \<Rightarrow> heap \<Rightarrow> heap" where
  "put_elem t i v h =
     (case cells h t of
        Some (VecF xs) \<Rightarrow> h\<lparr>cells := (cells h)(t \<mapsto> VecF (xs[i := v]))\<rparr>
      | _ \<Rightarrow> h)"

definition put_row :: "nat \<Rightarrow> nat \<Rightarrow> real list \<Rightarrow> heap \<Rightarrow> heap" where
  "put_row t i r h =
     (case cells h t of
        Some (Mat m) \<Rightarrow> h\<lparr>cells := (cells h)(t \<mapsto> Mat (m[i := r]))\<rparr>
      | _ \<Rightarrow> h)"

definition put_plane :: "nat \<Rightarrow> nat \<Rightarrow> npfloat list list \<Rightarrow> heap \<Rightarrow> heap" where
  "put_plane t i p h =
     (case cells h t of
        Some (CubF c) \<Rightarrow> h\<lparr>cells := (cells h)(t \<mapsto> CubF (c\<lparr>planes := (planes c)[i := p]\<rparr>))\<rparr>
      | _ \<Rightarrow> h)"

definition put_spectrum :: "nat \<Rightarrow> nat \<Rightarrow> nat \<Rightarrow> real list \<Rightarrow> heap \<Rightarrow> heap" where
  "put_spectrum t j i ys h =
     (case cells h t of
        Some (CubF c) \<Rightarrow>
          h\<lparr>cells := (cells h)(t \<mapsto> CubF (c\<lparr>planes :=
              map (\<lambda>(p, y). p[j := (p ! j)[i := Fin y]]) (zip (planes c) ys)\<rparr>))\<rparr>
      | _ \<Rightarrow> h)"

text \<open>A \<^verbatim>\<open>for\<close> loop over a range; an exception leaves the loop with the heap as it is.\<close>

fun for_loop :: "(nat \<Rightarrow> heap \<Rightarrow> heap \<times> (error + unit)) \<Rightarrow> nat list \<Rightarrow> heap
    \<Rightarrow> heap \<times> (error + unit)" where
  "for_loop body [] h = (h, Inr ())"
| "for_loop body (i # is) h =
     (case body i h of
        (h', Inl e) \<Rightarrow> (h', Inl e)
      | (h', Inr u) \<Rightarrow> for_loop body is h')"

text \<open>One iteration of the loop of lines 55-77.\<close>

definition rebin1d_step :: "nat \<Rightarrow> nat \<Rightarrow> nat \<Rightarrow> nat \<Rightarrow> nat \<Rightarrow> nat \<Rightarrow> heap
    \<Rightarrow> heap \<times> (error + unit)" where
  "rebin1d_step t q ay n_out n_in i h =
     (case bindE (get_vec h q) (\<lambda>in_i.
           bindE (box_bin in_i n_out n_in i) (\<lambda>b.
           bindE (get_vec h ay) (\<lambda>yin. rebin1d_value yin b))) of
        Inl e \<Rightarrow> (h, Inl e)
      | Inr v \<Rightarrow> (put_elem t i v h, Inr ()))"

definition rebin1d_box_st :: "nat \<Rightarrow> real list \<Rightarrow> real list \<Rightarrow> real \<Rightarrow> real \<Rightarrow> heap
    \<Rightarrow> heap \<times> (error + nat)" where
  "rebin1d_box_st ay xout xin dx_in dx_out h =
     (let (t, h1) = alloc (VecF (replicate (length xout) (Fin 0))) h
      in if dx_in = 0 then (h1, Inl ZeroDivisionError)
         else
           (case np_interp (map (\<lambda>x. x - dx_out * 0.5) xout) xin (np_range (length xin)) of
              Inl e \<Rightarrow> (h1, Inl e)
            | Inr in_i \<Rightarrow>
                let (q, h2) = alloc (Vec in_i) h1
                in (case for_loop (rebin1d_step t q ay (length xout) (length xin))
                           [0..<length xout] h2 of
                      (h3, Inl e) \<Rightarrow> (h3, Inl e)
                    | (h3, Inr u) \<Rightarrow> (h3, Inr t))))"

definition rebin1d_st :: "nat \<Rightarrow> nat \<Rightarrow> nat \<Rightarrow> heap \<Rightarrow> heap \<times> (error + nat)" where
  "rebin1d_st ax_out ax_in ay h =
     (case bindE (get_vec h ax_out) (\<lambda>xout. bindE (get_vec h ax_in) (\<lambda>xin.
           bindE (spacings xout xin) (\<lambda>d. Inr (xout, xin, d)))) of
        Inl e \<Rightarrow> (h, Inl e)
      | Inr (xout, xin, dx_in, dx_out) \<Rightarrow>
          if dx_out < dx_in then
            (case bindE (get_vec h ay) (np_interp xout xin) of
               Inl e \<Rightarrow> (h, Inl e)
             | Inr ys \<Rightarrow> (let (r, h1) = alloc (VecF (map Fin ys)) h in (h1, Inr r)))
          else rebin1d_box_st ay xout xin dx_in dx_out h)"

text \<open>Line 105, and one iteration of the loop of lines 115-131.\<close>

definition cube_interp_step :: "nat \<Rightarrow> nat \<Rightarrow> real list \<Rightarrow> real list \<Rightarrow> nat \<Rightarrow> nat \<Rightarrow> heap
    \<Rightarrow> heap \<times> (error + unit)" where
  "cube_interp_step t ac xout xin i j h =
     (case bindE (get_cub h ac) (\<lambda>c. np_interp xout xin (spectrum c j i)) of
        Inl e \<Rightarrow> (h, Inl e)
      | Inr ys \<Rightarrow> (put_spectrum t j i ys h, Inr ()))"

definition cube_box_step :: "nat \<Rightarrow> nat \<Rightarrow> nat \<Rightarrow> nat \<Rightarrow> nat \<Rightarrow> nat \<Rightarrow> heap
    \<Rightarrow> heap \<times> (error + unit)" where
  "cube_box_step t q ac n_out n_in i h =
     (case bindE (get_vec h q) (\<lambda>in_i.
           bindE (box_bin in_i n_out n_in i) (\<lambda>b.
           bindE (get_cub h ac) (\<lambda>c. cube_plane c b))) of
        Inl e \<Rightarrow> (h, Inl e)
      | Inr p \<Rightarrow> (put_plane t i p h, Inr ()))"

definition rebin_cube_st :: "nat \<Rightarrow> nat \<Rightarrow> nat \<Rightarrow> heap \<Rightarrow> heap \<times> (error + nat)" where
  "rebin_cube_st ax_out ax_in ac h =
     (case bindE (get_vec h ax_out) (\<lambda>xout. bindE (get_vec h ax_in) (\<lambda>xin.
           bindE (spacings xout xin) (\<lambda>d. bindE (get_cub h ac) (\<lambda>c. Inr (xout, xin, d, c))))) of
        Inl e \<Rightarrow> (h, Inl e)
      | Inr (xout, xin, (dx_in, dx_out), c) \<Rightarrow>
          let (t, h1) = alloc (CubF \<lparr>shape1 = shape1 c, shape2 = shape2 c,
                   planes = replicate (length xout)
                              (replicate (shape1 c) (replicate (shape2 c) (Fin 0)))\<rparr>) h
          in if dx_out < dx_in then
               (case for_loop (\<lambda>i. for_loop (cube_interp_step t ac xout xin i) [0..<shape1 c])
                       [0..<shape2 c] h1 of
                  (h2, Inl e) \<Rightarrow> (h2, Inl e)
                | (h2, Inr u) \<Rightarrow> (h2, Inr t))
             else if dx_in = 0 then (h1, Inl ZeroDivisionError)
             else
               (case np_interp (map (\<lambda>x. x - dx_out * 0.5) xout) xin (np_range (length xin)) of
                  Inl e \<Rightarrow> (h1, Inl e)
                | Inr in_i \<Rightarrow>
                    let (q, h2) = alloc (Vec in_i) h1
                    in (case for_loop (cube_box_step t q ac (length xout) (length xin))
                               [0..<length xout] h2 of
                          (h3, Inl e) \<Rightarrow> (h3, Inl e)
                        | (h3, Inr u) \<Rightarrow> (h3, Inr t))))"

text \<open>One iteration of the loop of lines 164-182 and of the loop of lines 190-207.\<close>

definition frebin_step1 :: "nat \<Rightarrow> nat \<Rightarrow> nat \<Rightarrow> real \<Rightarrow> int \<Rightarrow> nat \<Rightarrow> heap
    \<Rightarrow> heap \<times> (error + unit)" where
  "frebin_step1 t aa x ybox y1 i h =
     (case bindE (get_mat h aa) (\<lambda>a. frebin_line a x ybox y1 i) of
        Inl e \<Rightarrow> (h, Inl e)
      | Inr r \<Rightarrow> (put_row t i r h, Inr ()))"

definition frebin_step2 :: "nat \<Rightarrow> nat \<Rightarrow> nat \<Rightarrow> nat \<Rightarrow> real \<Rightarrow> int \<Rightarrow> nat \<Rightarrow> heap
    \<Rightarrow> heap \<times> (error + unit)" where
  "frebin_step2 res t x n xbox x1 i h =
     (case bindE (get_mat h t) (\<lambda>tm. frebin_line (np_transpose x tm) n xbox x1 i) of
        Inl e \<Rightarrow> (h, Inl e)
      | Inr r \<Rightarrow> (put_row res i r h, Inr ()))"

definition frebin2d_st :: "nat \<Rightarrow> int \<times> int \<Rightarrow> heap \<Rightarrow> heap \<times> (error + nat)" where
  "frebin2d_st aa shape h =
     (case get_mat h aa of
        Inl e \<Rightarrow> (h, Inl e)
      | Inr array \<Rightarrow>
          let sx = fst shape; sy = snd shape;
              y = length array; x = ncols array;
              y1 = int y - 1; x1 = int x - 1
          in if sx = 0 then (h, Inl ZeroDivisionError)
             else if sy = 0 then (h, Inl ZeroDivisionError)
             else
               let xbox = real x / real_of_int sx; ybox = real y / real_of_int sy
               in if sy < 0 then (h, Inl ValueError)
                  else
                    let (t, h1) = alloc (Mat (replicate (nat sy) (replicate x 0))) h
                    in (case for_loop (frebin_step1 t aa x ybox y1) [0..<nat sy] h1 of
                          (h2, Inl e) \<Rightarrow> (h2, Inl e)
                        | (h2, Inr u) \<Rightarrow>
                            if sx < 0 then (h2, Inl ValueError)
                            else
                              let (res, h3) =
                                    alloc (Mat (replicate (nat sx) (replicate (nat sy) 0))) h2
                              in (case for_loop (frebin_step2 res t x (nat sy) xbox x1)
                                         [0..<nat sx] h3 of
                                    (h4, Inl e) \<Rightarrow> (h4, Inl e)
                                  | (h4, Inr u) \<Rightarrow>
                                      (case get_mat h4 res of
                                         Inl e \<Rightarrow> (h4, Inl e)
                                       | Inr rm \<Rightarrow>
                                           let (out, h5) =
                                                 alloc (MatF (map (map (\<lambda>v. np_div v (xbox * ybox)))
                                                          (np_transpose (nat sy) rm))) h4
                                           in (h5, Inr out)))))"

section \<open>Notions used in the statements and proofs\<close>

text \<open>The number of leading samples of \<open>xp\<close> that are at most \<open>x\<close>: the segment \<^verbatim>\<open>np.interp\<close> selects.\<close>

definition seg :: "real \<Rightarrow> real list \<Rightarrow> nat" where
  "seg x xp = length (takeWhile (\<lambda>a. a \<le> x) xp)"

text \<open>The index \<open>in0\<close> of line 39 when the first output coordinate lies below the last input one.\<close>

definition in0_of :: "real list \<Rightarrow> real list \<Rightarrow> nat" where
  "in0_of xout xin = seg (xout ! 0) xin - 1"

text \<open>The array \<open>in_i\<close> of line 53: the left edge of every output bin in input-index units.\<close>

definition edges :: "real list \<Rightarrow> real list \<Rightarrow> real \<Rightarrow> real list" where
  "edges xout xin dx_out = map (\<lambda>x. interp_at (x - dx_out * 0.5) xin (np_range (length xin))) xout"

text \<open>The bin that \<open>box_bin\<close> returns when none of its reads raises.\<close>

definition bin_at :: "real list \<Rightarrow> nat \<Rightarrow> nat \<Rightarrow> nat \<Rightarrow> bin" where
  "bin_at in_i n_out n_in i =
     (let rs = in_i ! i;
          rt = (if i + 1 < n_out then in_i ! (i + 1) else rs + (rs - in_i ! (i - 1)));
          it = (if py_int rt > int n_in - 1 then int n_in - 1 else py_int rt)
      in \<lparr>rstart = rs, istart = py_int rs, rstop = rt, istop = it,
          frac1 = rs - real_of_int (py_int rs), frac2 = 1 - (rt - real_of_int it)\<rparr>)"

text \<open>
  Valid grids: both strictly increasing with at least two samples, and the first output
  coordinate below the last input coordinate, so that the input spacing read on line 41
  exists.
\<close>

definition valid_grids :: "real list \<Rightarrow> real list \<Rightarrow> bool" where
  "valid_grids xout xin \<longleftrightarrow>
     sorted_wrt (<) xout \<and> sorted_wrt (<) xin \<and> 2 \<le> length xout \<and> 2 \<le> length xin
     \<and> xout ! 0 < last xin"

text \<open>
  The weight that line 77 gives input pixel \<open>k\<close> of a bin: the full pixel between the two
  ends, \<open>1 - frac1\<close> at \<open>istart\<close> and \<open>1 - frac2\<close> at \<open>istop\<close>.
\<close>

definition weight :: "bin \<Rightarrow> int \<Rightarrow> real" where
  "weight b k = (if k = istart b then 1 - frac1 b else if k = istop b then 1 - frac2 b else 1)"


text \<open>numpy's \<^verbatim>\<open>array.shape\<close> of a 2-D array: (rows, columns), as line 150 unpacks it.\<close>

definition np_shape :: "'a list list \<Rightarrow> int \<times> int" where
  "np_shape a = (int (length a), int (ncols a))"

text \<open>
  What a call may do to the heap: allocate, and leave every array that existed before
  the call as it was.
\<close>

definition frame :: "heap \<Rightarrow> heap \<Rightarrow> bool" where
  "frame h h' \<longleftrightarrow> next_addr h \<le> next_addr h' \<and> (\<forall>a<next_addr h. cells h' a = cells h a)"

text \<open>A heap change confined to the array at one address.\<close>

definition only_at :: "nat \<Rightarrow> heap \<Rightarrow> heap \<Rightarrow> bool" where
  "only_at t h h' \<longleftrightarrow> next_addr h' = next_addr h \<and> (\<forall>a. a \<noteq> t \<longrightarrow> cells h' a = cells h a)"

text \<open>
  A call from heap \<open>h\<close> to heap \<open>h'\<close> with outcome \<open>res\<close> leaves the arrays of \<open>h\<close>
  untouched, and a returned address was allocated during the call.
\<close>

definition fresh_result :: "heap \<Rightarrow> heap \<Rightarrow> error + nat \<Rightarrow> bool" where
  "fresh_result h h' res \<longleftrightarrow>
     frame h h' \<and> (case res of Inl e \<Rightarrow> True | Inr r \<Rightarrow> next_addr h \<le> r \<and> r < next_addr h')"

text \<open>A heap with two grids, a series, a cube and a plane.\<close>

definition example_heap :: heap where
  "example_heap =
     \<lparr>next_addr = 5,
      cells = (\<lambda>a. None)
        (0 \<mapsto> Vec [0, 2, 4],
         1 \<mapsto> Vec [0, 1, 2, 3, 4],
         2 \<mapsto> Vec [1, 2, 3, 4, 5],
         3 \<mapsto> Cub \<lparr>shape1 = 1, shape2 = 1, planes = [[[1]], [[2]], [[3]], [[4]], [[5]]]\<rparr>,
         4 \<mapsto> Mat [[1, 2], [3, 4]])\<rparr>"

text \<open>The array under construction at an address, for the loop invariants.\<close>

definition vecF_at :: "nat \<Rightarrow> heap \<Rightarrow> npfloat list option" where
  "vecF_at t h = (case cells h t of Some (VecF xs) \<Rightarrow> Some xs | _ \<Rightarrow> None)"

definition mat_at :: "nat \<Rightarrow> heap \<Rightarrow> real list list option" where
  "mat_at t h = (case cells h t of Some (Mat m) \<Rightarrow> Some m | _ \<Rightarrow> None)"

definition planes_at :: "nat \<Rightarrow> heap \<Rightarrow> npfloat list list list option" where
  "planes_at t h = (case cells h t of Some (CubF c) \<Rightarrow> Some (planes c) | _ \<Rightarrow> None)"

definition cubF_shaped :: "nat \<Rightarrow> nat \<Rightarrow> nat \<Rightarrow> heap \<Rightarrow> bool" where
  "cubF_shaped t s1 s2 h \<longleftrightarrow> (\<exists>c. cells h t = Some (CubF c) \<and> shape1 c = s1 \<and> shape2 c = s2)"

text \<open>The planes of a cube after \<^verbatim>\<open>new_cube[:,j,i] = ys\<close>.\<close>

definition col_upd :: "nat \<Rightarrow> nat \<Rightarrow> real list \<Rightarrow> npfloat list list list \<Rightarrow> npfloat list list list" where
  "col_upd i j ys ps = map (\<lambda>(p, y). p[j := (p ! j)[i := Fin y]]) (zip ps ys)"

text \<open>
  A cube of \<open>n\<close> planes of \<open>s1\<close> by \<open>s2\<close> whose positions marked by \<open>W\<close> hold their final
  value and whose other positions still hold zero.
\<close>

definition filled :: "nat \<Rightarrow> nat \<Rightarrow> nat \<Rightarrow> (nat \<Rightarrow> nat \<Rightarrow> bool) \<Rightarrow> (nat \<Rightarrow> nat \<Rightarrow> nat \<Rightarrow> npfloat)
    \<Rightarrow> npfloat list list list \<Rightarrow> bool" where
  "filled n s1 s2 W val ps \<longleftrightarrow>
     length ps = n \<and>
     (\<forall>k<n. length (ps ! k) = s1 \<and>
        (\<forall>j<s1. length (ps ! k ! j) = s2 \<and>
           (\<forall>i<s2. ps ! k ! j ! i = (if W j i then val i j k else Fin 0))))"

section \<open>Basic facts\<close>

lemma bindE_simps [simp]:
  "bindE (Inl e) f = Inl e" "bindE (Inr v) f = f v"
  by (simp_all add: bindE_def)

lemma py_get_nil [simp]: "py_get [] i = Inl IndexError"
  by (simp add: py_get_def)

lemma py_get_cases: "py_get xs i = Inl IndexError \<or> (\<exists>v. py_get xs i = Inr v)"
  by (simp add: py_get_def Let_def)

section \<open>Grids shorter than two samples\<close>

lemma spacings_short:
  assumes "length xout < 2 \<or> length xin < 2"
  shows "spacings xout xin = Inl (if xout \<noteq> [] \<and> xin = [] then ValueError else IndexError)"
proof (cases xout)
  case Nil
  then show ?thesis by (simp add: spacings_def)
next
  case (Cons x0 xs)
  note xo = Cons
  have g0: "py_get xout 0 = Inr x0" using Cons by (simp add: py_get_def)
  show ?thesis
  proof (cases xin)
    case Nil
    then show ?thesis using xo g0 by (simp add: spacings_def np_interp1_def)
  next
    case (Cons a as)
    note xi = Cons
    show ?thesis
    proof (cases as)
      case Nil
      then have xin1: "xin = [a]" using xi by simp
      have "interp_at x0 [a] (np_range 1) = 0"
        by (simp add: interp_at_def np_range_def Let_def)
      then show ?thesis using xo g0 xin1
        by (simp add: spacings_def np_interp1_def np_range_def py_int_def py_get_def)
    next
      case (Cons b bs)
      then have "length xin \<ge> 2" using xi by simp
      then have "xs = []" using assms xo by simp
      then have g1: "py_get xout 1 = Inl IndexError" using xo by (simp add: py_get_def)
      have i1: "np_interp1 x0 xin (np_range (length xin))
                  = Inr (interp_at x0 xin (np_range (length xin)))"
        using xi by (simp add: np_interp1_def np_range_def)
      show ?thesis
        using py_get_cases[of xin "py_int (interp_at x0 xin (np_range (length xin))) + 1"]
              py_get_cases[of xin "py_int (interp_at x0 xin (np_range (length xin)))"]
        using xo g0 g1 i1 xi by (auto simp add: spacings_def Let_def)
    qed
  qed
qed

text \<open>
  Claim C4, as stated: on a grid of length below two \<^verbatim>\<open>rebin1d\<close> fails with InvalidGrid,
  detected before any computation. The source has no such check and no such error: with
  a one-point output grid it interpolates, reads the input spacing and then fails on
  \<^verbatim>\<open>xout[1]\<close> with IndexError.
\<close>

theorem rebin1d_short_grid_not_InvalidGrid:
  "length [1::real] < 2 \<and> rebin1d [1] [0, 1, 2] [0, 0, 0] = Inl IndexError
   \<and> rebin1d [1] [0, 1, 2] [0, 0, 0] \<noteq> Inl InvalidGrid"
  by (simp add: rebin1d_def spacings_def py_get_def np_interp1_def np_range_def
        interp_at_def py_int_def)

text \<open>
  Claim C4, amended: whenever the output grid or the input grid has fewer than two samples,
  \<^verbatim>\<open>rebin1d\<close> raises and returns nothing, whatever the values are: ValueError (from
  \<^verbatim>\<open>np.interp\<close>) when the input grid is empty and the output grid is not, IndexError (from
  an index out of range) in every other case.
\<close>

theorem rebin1d_short_grid_raises:
  assumes "length xout < 2 \<or> length xin < 2"
  shows "rebin1d xout xin yin =
           Inl (if xout \<noteq> [] \<and> xin = [] then ValueError else IndexError)"
  using spacings_short[OF assms] by (simp add: rebin1d_def)

theorem rebin1d_short_grid_raises_witness:
  "(length [0::real, 1] < 2 \<or> length ([]::real list) < 2)
   \<and> rebin1d [0, 1] [] [] = Inl ValueError"
  using rebin1d_short_grid_raises[of "[0, 1]" "[]" "[]"] by simp

section \<open>Interpolation onto index space, bins and totality of the box regime\<close>

lemma seg_le: "seg x xp \<le> length xp"
  by (simp add: seg_def length_takeWhile_le)

lemma seg_below:
  assumes "0 < seg x xp"
  shows "xp ! (seg x xp - 1) \<le> x"
proof -
  let ?t = "takeWhile (\<lambda>a. a \<le> x) xp"
  have k: "seg x xp - 1 < length ?t" using assms by (simp add: seg_def)
  have "?t ! (seg x xp - 1) \<in> set ?t" using k by (rule nth_mem)
  moreover have "?t ! (seg x xp - 1) = xp ! (seg x xp - 1)" using k by (rule takeWhile_nth)
  ultimately have "xp ! (seg x xp - 1) \<in> set ?t" by simp
  then show ?thesis by (rule set_takeWhileD[THEN conjunct2])
qed

lemma seg_above: "seg x xp < length xp \<Longrightarrow> x < xp ! seg x xp"
  using nth_length_takeWhile[of "\<lambda>a. a \<le> x" xp] by (simp add: seg_def not_le)

lemma seg_mono: "x \<le> x' \<Longrightarrow> seg x xp \<le> seg x' xp"
  unfolding seg_def by (induction xp) auto

lemma seg_full: "seg x xp = length xp \<longleftrightarrow> (\<forall>a \<in> set xp. a \<le> x)"
  unfolding seg_def by (induction xp) (auto simp: length_takeWhile_le le_Suc_eq dest: le_trans[OF _ length_takeWhile_le])

lemma np_range_nth: "k < n \<Longrightarrow> np_range n ! k = real k"
  by (simp add: np_range_def)

lemma interp_at_seg:
  "interp_at x xp fp =
     (if seg x xp = 0 then fp ! 0
      else if seg x xp = length xp then fp ! (seg x xp - 1)
      else if xp ! (seg x xp - 1) = x then fp ! (seg x xp - 1)
      else (fp ! seg x xp - fp ! (seg x xp - 1)) / (xp ! seg x xp - xp ! (seg x xp - 1))
             * (x - xp ! (seg x xp - 1)) + fp ! (seg x xp - 1))"
  by (simp add: interp_at_def seg_def Let_def)

lemma interp_index:
  assumes "xp \<noteq> []"
  shows "interp_at x xp (np_range (length xp)) =
     (if seg x xp = 0 then 0
      else if seg x xp = length xp then real (length xp - 1)
      else real (seg x xp - 1) + (x - xp ! (seg x xp - 1)) / (xp ! seg x xp - xp ! (seg x xp - 1)))"
proof -
  let ?j = "seg x xp"
  have jle: "?j \<le> length xp" by (rule seg_le)
  have n0: "0 < length xp" using assms by simp
  show ?thesis
  proof (cases "?j = 0")
    case True
    then show ?thesis using n0 by (simp add: interp_at_seg np_range_nth)
  next
    case j0: False
    show ?thesis
    proof (cases "?j = length xp")
      case True
      then show ?thesis using j0 by (simp add: interp_at_seg np_range_nth)
    next
      case False
      then have jlt: "?j < length xp" using jle by simp
      have j1: "?j - Suc 0 < length xp" using jlt by simp
      show ?thesis using j0 False jlt
        by (simp add: interp_at_seg np_range_nth[OF jlt] np_range_nth[OF j1])
    qed
  qed
qed

lemma interp_bounds:
  assumes "0 < seg x xp" "seg x xp < length xp"
  shows "real (seg x xp - 1) \<le> interp_at x xp (np_range (length xp))"
    and "interp_at x xp (np_range (length xp)) < real (seg x xp)"
proof -
  let ?j = "seg x xp"
  have lo: "xp ! (?j - 1) \<le> x" using seg_below assms by simp
  have hi: "x < xp ! ?j" using seg_above assms by simp
  have t0: "0 \<le> (x - xp ! (?j - 1)) / (xp ! ?j - xp ! (?j - 1))" using lo hi by simp
  have t1: "(x - xp ! (?j - 1)) / (xp ! ?j - xp ! (?j - 1)) < 1" using lo hi by simp
  have ne: "xp \<noteq> []" using assms by auto
  have e: "interp_at x xp (np_range (length xp)) = real (?j - 1) + (x - xp ! (?j - 1)) / (xp ! ?j - xp ! (?j - 1))"
    using assms by (simp add: interp_index[OF ne])
  show "real (?j - 1) \<le> interp_at x xp (np_range (length xp))" using e t0 by simp
  have "real (?j - 1) + 1 = real ?j" using assms by simp
  then show "interp_at x xp (np_range (length xp)) < real ?j" using e t1 by linarith
qed

lemma interp_range:
  assumes "xp \<noteq> []"
  shows "0 \<le> interp_at x xp (np_range (length xp))"
    and "interp_at x xp (np_range (length xp)) \<le> real (length xp - 1)"
proof -
  let ?j = "seg x xp"
  have jle: "?j \<le> length xp" by (rule seg_le)
  consider "?j = 0" | "?j = length xp" "?j \<noteq> 0" | "0 < ?j" "?j < length xp" using jle by linarith
  then have "0 \<le> interp_at x xp (np_range (length xp)) \<and> interp_at x xp (np_range (length xp)) \<le> real (length xp - 1)"
  proof cases
    case 1
    then show ?thesis by (simp add: interp_index[OF assms])
  next
    case 2
    then show ?thesis by (simp add: interp_index[OF assms])
  next
    case 3
    have "real (?j - 1) \<ge> 0" by simp
    moreover have "real ?j \<le> real (length xp - 1)" using 3 by simp
    ultimately show ?thesis using interp_bounds[OF 3] by linarith
  qed
  then show "0 \<le> interp_at x xp (np_range (length xp))"
    and "interp_at x xp (np_range (length xp)) \<le> real (length xp - 1)" by simp_all
qed

lemma interp_mono:
  assumes "x \<le> x'"
  shows "interp_at x xp (np_range (length xp)) \<le> interp_at x' xp (np_range (length xp))"
proof (cases "xp = []")
  case True
  then show ?thesis by (simp add: interp_at_seg seg_def)
next
  case ne: False
  let ?j = "seg x xp" and ?j' = "seg x' xp"
  have jj: "?j \<le> ?j'" using assms by (rule seg_mono)
  have j'le: "?j' \<le> length xp" by (rule seg_le)
  show ?thesis
  proof (cases "?j = 0")
    case True
    then have "interp_at x xp (np_range (length xp)) = 0" by (simp add: interp_index[OF ne])
    then show ?thesis using interp_range(1)[OF ne, of x'] by simp
  next
    case j0: False
    show ?thesis
    proof (cases "?j' = length xp")
      case True
      then have "interp_at x' xp (np_range (length xp)) = real (length xp - 1)"
        using j0 jj ne by (simp add: interp_index[OF ne])
      then show ?thesis using interp_range(2)[OF ne, of x] by simp
    next
      case False
      then have j'lt: "?j' < length xp" using j'le by simp
      then have jlt: "?j < length xp" using jj by simp
      have j'0: "0 < ?j'" using j0 jj by simp
      show ?thesis
      proof (cases "?j = ?j'")
        case True
        have lo: "xp ! (?j - 1) \<le> x" using seg_below j0 by simp
        have hi: "x' < xp ! ?j" using seg_above[of x' xp] j'lt True by simp
        have "(x - xp ! (?j - 1)) / (xp ! ?j - xp ! (?j - 1)) \<le> (x' - xp ! (?j - 1)) / (xp ! ?j - xp ! (?j - 1))"
          using lo hi assms by (simp add: divide_right_mono)
        then show ?thesis using True j0 jlt by (simp add: interp_index[OF ne])
      next
        case False
        then have "?j \<le> ?j' - 1" using jj by simp
        then have "real ?j \<le> real (?j' - 1)" by simp
        then show ?thesis
          using interp_bounds(2)[of x xp] interp_bounds(1)[of x' xp] j0 jlt j'0 j'lt by linarith
      qed
    qed
  qed
qed

lemma py_get_nat: "i < length xs \<Longrightarrow> py_get xs (int i) = Inr (xs ! i)"
  by (simp add: py_get_def)

lemma py_get_in: "0 \<le> i \<Longrightarrow> i < int (length xs) \<Longrightarrow> py_get xs i = Inr (xs ! nat i)"
  by (simp add: py_get_def)

lemma mapE_length: "mapE f xs = Inr ys \<Longrightarrow> length ys = length xs"
proof (induction xs arbitrary: ys)
  case Nil
  then show ?case by simp
next
  case (Cons x xs)
  then show ?case
    by (cases "f x"; cases "mapE f xs") auto
qed

lemma mapE_map: "(\<And>x. x \<in> set xs \<Longrightarrow> f x = Inr (g x)) \<Longrightarrow> mapE f xs = Inr (map g xs)"
  by (induction xs) simp_all

lemma mapE_nth: "mapE f xs = Inr ys \<Longrightarrow> i < length xs \<Longrightarrow> f (xs ! i) = Inr (ys ! i)"
proof (induction xs arbitrary: ys i)
  case Nil
  then show ?case by simp
next
  case (Cons x xs)
  then show ?case
    by (cases "f x"; cases "mapE f xs"; cases i) auto
qed

lemma py_int_interp:
  assumes "xp \<noteq> []" "seg x xp < length xp"
  shows "py_int (interp_at x xp (np_range (length xp))) = int (seg x xp - 1)"
proof (cases "seg x xp = 0")
  case True
  then show ?thesis by (simp add: interp_index[OF assms(1)] py_int_def)
next
  case False
  then have j0: "0 < seg x xp" by simp
  let ?r = "interp_at x xp (np_range (length xp))"
  have b: "real (seg x xp - 1) \<le> ?r" "?r < real (seg x xp)"
    using interp_bounds[OF j0 assms(2)] by simp_all
  have "0 \<le> ?r" using b(1) by (meson of_nat_0_le_iff order_trans)
  then have "py_int ?r = \<lfloor>?r\<rfloor>" by (simp add: py_int_def)
  moreover have "\<lfloor>?r\<rfloor> = int (seg x xp - 1)"
  proof (rule floor_unique)
    show "of_int (int (seg x xp - 1)) \<le> ?r" using b(1) by simp
    have "real (seg x xp - 1) + 1 = real (seg x xp)" using j0 by simp
    then show "?r < of_int (int (seg x xp - 1)) + 1" using b(2) by simp
  qed
  ultimately show ?thesis by simp
qed

lemma spacings_ok:
  assumes "2 \<le> length xout" "2 \<le> length xin" "xout ! 0 < last xin"
  shows "in0_of xout xin + 1 < length xin"
    and "spacings xout xin =
           Inr (xin ! (in0_of xout xin + 1) - xin ! in0_of xout xin, xout ! 1 - xout ! 0)"
proof -
  let ?x0 = "xout ! 0"
  have ne: "xin \<noteq> []" using assms(2) by auto
  have "\<not> (\<forall>a \<in> set xin. a \<le> ?x0)" using assms(3) last_in_set[OF ne] by force
  then have "seg ?x0 xin \<noteq> length xin" by (simp add: seg_full)
  then have jlt: "seg ?x0 xin < length xin" using seg_le[of ?x0 xin] by simp
  have in0: "py_int (interp_at ?x0 xin (np_range (length xin))) = int (in0_of xout xin)"
    using py_int_interp[OF ne jlt] by (simp add: in0_of_def)
  show lt: "in0_of xout xin + 1 < length xin" using jlt assms(2) by (simp add: in0_of_def)
  have g0: "py_get xout 0 = Inr ?x0" using assms(1) by (auto simp add: py_get_def)
  have g1: "py_get xout 1 = Inr (xout ! 1)" using assms(1) by (auto simp add: py_get_def)
  have i1: "np_interp1 ?x0 xin (np_range (length xin))
              = Inr (interp_at ?x0 xin (np_range (length xin)))"
    using ne by (simp add: np_interp1_def np_range_def)
  have h1: "py_get xin (int (in0_of xout xin) + 1) = Inr (xin ! (in0_of xout xin + 1))"
    using py_get_nat[OF lt] by (simp add: add.commute)
  have h0: "py_get xin (int (in0_of xout xin)) = Inr (xin ! in0_of xout xin)"
    using py_get_nat[of "in0_of xout xin" xin] lt by simp
  show "spacings xout xin =
           Inr (xin ! (in0_of xout xin + 1) - xin ! in0_of xout xin, xout ! 1 - xout ! 0)"
    by (simp add: spacings_def g0 g1 i1 in0 h1 h0)
qed


lemma np_interp_edges:
  "xin \<noteq> [] \<Longrightarrow> np_interp (map (\<lambda>x. x - dx_out * 0.5) xout) xin (np_range (length xin))
                     = Inr (edges xout xin dx_out)"
  by (simp add: np_interp_def edges_def np_range_def o_def)

lemma np_interp_edges_half:
  "xin \<noteq> [] \<Longrightarrow> np_interp (map (\<lambda>x. x - dx_out / 2) xout) xin (np_range (length xin))
                     = Inr (edges xout xin dx_out)"
  using np_interp_edges[of xin dx_out xout] by simp

lemma edges_length [simp]: "length (edges xout xin dx_out) = length xout"
  by (simp add: edges_def)

lemma edges_range:
  assumes "xin \<noteq> []" "i < length xout"
  shows "0 \<le> edges xout xin dx_out ! i" "edges xout xin dx_out ! i \<le> real (length xin - 1)"
  using assms interp_range[OF assms(1)] by (simp_all add: edges_def)

lemma edges_mono:
  assumes "sorted xout" "i \<le> j" "j < length xout"
  shows "edges xout xin dx_out ! i \<le> edges xout xin dx_out ! j"
proof -
  have "xout ! i \<le> xout ! j" using assms by (simp add: sorted_nth_mono)
  then have "xout ! i - dx_out * 0.5 \<le> xout ! j - dx_out * 0.5" by simp
  then show ?thesis using assms interp_mono by (simp add: edges_def)
qed

lemma box_bin_ok:
  assumes "length in_i = n_out" "2 \<le> n_out" "i < n_out"
  shows "box_bin in_i n_out n_in i = Inr (bin_at in_i n_out n_in i)"
proof -
  have g: "py_get in_i (int i) = Inr (in_i ! i)" using assms by (simp add: py_get_nat)
  show ?thesis
  proof (cases "i + 1 < n_out")
    case True
    then have g1: "py_get in_i (int i + 1) = Inr (in_i ! (i + 1))"
      using assms py_get_nat[of "i + 1" in_i] by (simp add: add.commute)
    have c: "int i < int n_out - 1" using True by simp
    show ?thesis using True
      by (simp add: box_bin_def bin_at_def g g1 c Let_def)
  next
    case False
    then have i1: "1 \<le> i" using assms by simp
    then have "py_get in_i (int (i - 1)) = Inr (in_i ! (i - 1))"
      using assms py_get_nat[of "i - 1" in_i] by simp
    then have g1: "py_get in_i (int i - 1) = Inr (in_i ! (i - 1))"
      using i1 by simp
    have c: "\<not> int i < int n_out - 1" using False by simp
    show ?thesis using False
      by (simp add: box_bin_def bin_at_def g g1 c Let_def)
  qed
qed

lemma bin_at_sel:
  "rstart (bin_at in_i n_out n_in i) = in_i ! i"
  "rstop (bin_at in_i n_out n_in i) =
     (if i + 1 < n_out then in_i ! (i + 1) else in_i ! i + (in_i ! i - in_i ! (i - 1)))"
  "istart (bin_at in_i n_out n_in i) = py_int (in_i ! i)"
  "istop (bin_at in_i n_out n_in i) =
     (if py_int (rstop (bin_at in_i n_out n_in i)) > int n_in - 1 then int n_in - 1
      else py_int (rstop (bin_at in_i n_out n_in i)))"
  "frac1 (bin_at in_i n_out n_in i) =
     rstart (bin_at in_i n_out n_in i) - real_of_int (istart (bin_at in_i n_out n_in i))"
  "frac2 (bin_at in_i n_out n_in i) =
     1 - (rstop (bin_at in_i n_out n_in i) - real_of_int (istop (bin_at in_i n_out n_in i)))"
  by (simp_all add: bin_at_def Let_def)

text \<open>The bins of a run on a sorted output grid.\<close>

lemma bin_bounds:
  fixes dx_out :: real
  assumes "sorted xout" "xin \<noteq> []" "2 \<le> length xout" "i < length xout"
  defines "b \<equiv> bin_at (edges xout xin dx_out) (length xout) (length xin) i"
  shows "0 \<le> rstart b" and "rstart b \<le> rstop b"
    and "0 \<le> istart b" and "istart b \<le> istop b" and "istop b \<le> int (length xin) - 1"
    and "istart b = \<lfloor>rstart b\<rfloor>"
proof -
  let ?e = "edges xout xin dx_out" and ?n = "length xin"
  have rs: "rstart b = ?e ! i" by (simp add: b_def bin_at_sel)
  show r0: "0 \<le> rstart b" using edges_range(1)[OF assms(2,4)] rs by simp
  have rn: "rstart b \<le> real (?n - 1)" using edges_range(2)[OF assms(2,4)] rs by simp
  show rr: "rstart b \<le> rstop b"
  proof (cases "i + 1 < length xout")
    case True
    then have "rstop b = ?e ! (i + 1)" by (simp add: b_def bin_at_sel)
    then show ?thesis using rs edges_mono[OF assms(1), of i "i + 1"] True by simp
  next
    case False
    then have "rstop b = ?e ! i + (?e ! i - ?e ! (i - 1))" by (simp add: b_def bin_at_sel)
    moreover have "?e ! (i - 1) \<le> ?e ! i" using edges_mono[OF assms(1), of "i - 1" i] assms(4) by simp
    ultimately show ?thesis using rs by simp
  qed
  show fl: "istart b = \<lfloor>rstart b\<rfloor>" using r0 rs by (simp add: b_def bin_at_sel py_int_def)
  show i0: "0 \<le> istart b" using fl r0 by simp
  have "\<lfloor>rstart b\<rfloor> \<le> int (?n - 1)" using rn by (simp add: floor_le_iff)
  then have il: "istart b \<le> int ?n - 1" using fl assms(2) by (simp add: Suc_leI)
  have pt: "py_int (rstop b) = \<lfloor>rstop b\<rfloor>" using r0 rr by (simp add: py_int_def)
  have st: "istop b = (if \<lfloor>rstop b\<rfloor> > int ?n - 1 then int ?n - 1 else \<lfloor>rstop b\<rfloor>)"
    using pt bin_at_sel(4)[of ?e "length xout" ?n i] by (simp add: b_def)
  have "\<lfloor>rstart b\<rfloor> \<le> \<lfloor>rstop b\<rfloor>" using rr by (rule floor_mono)
  then show "istart b \<le> istop b" using st fl il by simp
  show "istop b \<le> int ?n - 1" using st by simp
qed

lemma rebin1d_value_ok:
  assumes "0 \<le> istart b" "istart b \<le> istop b" "istop b \<le> int (length yin) - 1"
  shows "\<exists>v. rebin1d_value yin b = Inr v"
proof -
  have a: "py_get yin (istart b) = Inr (yin ! nat (istart b))"
    using assms by (intro py_get_in) auto
  have e: "py_get yin (istop b) = Inr (yin ! nat (istop b))"
    using assms by (intro py_get_in) auto
  show ?thesis by (simp add: rebin1d_value_def a e)
qed

lemma cube_plane_ok:
  assumes "0 \<le> istart b" "istart b \<le> istop b" "istop b \<le> int (length (planes c)) - 1"
  shows "\<exists>v. cube_plane c b = Inr v"
proof -
  have a: "py_get (planes c) (istart b) = Inr (planes c ! nat (istart b))"
    using assms by (intro py_get_in) auto
  have e: "py_get (planes c) (istop b) = Inr (planes c ! nat (istop b))"
    using assms by (intro py_get_in) auto
  show ?thesis by (simp add: cube_plane_def a e)
qed

lemma mapE_ok:
  assumes "\<And>x. x \<in> set xs \<Longrightarrow> \<exists>y. f x = Inr y"
  shows "\<exists>ys. mapE f xs = Inr ys"
  using assms
proof (induction xs)
  case Nil
  then show ?case by simp
next
  case (Cons a xs)
  obtain y where "f a = Inr y" using Cons.prems[of a] by auto
  moreover obtain ys where "mapE f xs = Inr ys" using Cons by auto
  ultimately show ?case by simp
qed

lemma rebin1d_box_ok:
  assumes "sorted xout" "2 \<le> length xout" "xin \<noteq> []" "dx_in \<noteq> 0" "length yin = length xin"
  shows "\<exists>ys. rebin1d_box xout xin yin dx_in dx_out = Inr ys"
proof -
  let ?e = "edges xout xin dx_out"
  have "\<exists>ys. mapE (\<lambda>i. bindE (box_bin ?e (length xout) (length xin) i) (rebin1d_value yin))
               [0..<length xout] = Inr ys"
  proof (rule mapE_ok)
    fix i assume "i \<in> set [0..<length xout]"
    then have i: "i < length xout" by simp
    have bb: "box_bin ?e (length xout) (length xin) i
                = Inr (bin_at ?e (length xout) (length xin) i)"
      using box_bin_ok[of ?e "length xout" i] assms(2) i by simp
    have "\<exists>v. rebin1d_value yin (bin_at ?e (length xout) (length xin) i) = Inr v"
      using bin_bounds(3,4,5)[OF assms(1,3,2) i, of dx_out] assms(5)
      by (intro rebin1d_value_ok) simp_all
    then show "\<exists>y. bindE (box_bin ?e (length xout) (length xin) i) (rebin1d_value yin) = Inr y"
      by (simp add: bb)
  qed
  then show ?thesis using assms(4) by (simp add: rebin1d_box_def np_interp_edges_half[OF assms(3)])
qed

lemma rebin_cube_box_ok:
  assumes "sorted xout" "2 \<le> length xout" "xin \<noteq> []" "dx_in \<noteq> 0"
    "length (planes c) = length xin"
  shows "\<exists>out. rebin_cube_box xout xin c dx_in dx_out = Inr out"
proof -
  let ?e = "edges xout xin dx_out"
  have "\<exists>ps. mapE (\<lambda>i. bindE (box_bin ?e (length xout) (length xin) i) (cube_plane c))
               [0..<length xout] = Inr ps"
  proof (rule mapE_ok)
    fix i assume "i \<in> set [0..<length xout]"
    then have i: "i < length xout" by simp
    have bb: "box_bin ?e (length xout) (length xin) i
                = Inr (bin_at ?e (length xout) (length xin) i)"
      using box_bin_ok[of ?e "length xout" i] assms(2) i by simp
    have "\<exists>v. cube_plane c (bin_at ?e (length xout) (length xin) i) = Inr v"
      using bin_bounds(3,4,5)[OF assms(1,3,2) i, of dx_out] assms(5)
      by (intro cube_plane_ok) simp_all
    then show "\<exists>y. bindE (box_bin ?e (length xout) (length xin) i) (cube_plane c) = Inr y"
      by (simp add: bb)
  qed
  then obtain ps where "mapE (\<lambda>i. bindE (box_bin ?e (length xout) (length xin) i) (cube_plane c))
               [0..<length xout] = Inr ps" by auto
  then show ?thesis using assms(4) by (simp add: rebin_cube_box_def np_interp_edges_half[OF assms(3)])
qed

lemma valid_spacings:
  assumes "valid_grids xout xin"
  shows "\<exists>dx_in dx_out. spacings xout xin = Inr (dx_in, dx_out) \<and> 0 < dx_in \<and> 0 < dx_out"
proof -
  have v: "sorted_wrt (<) xout" "sorted_wrt (<) xin" "2 \<le> length xout" "2 \<le> length xin"
    "xout ! 0 < last xin" using assms by (simp_all add: valid_grids_def)
  have lt: "in0_of xout xin + 1 < length xin" using spacings_ok(1)[OF v(3,4,5)] .
  have "xin ! in0_of xout xin < xin ! (in0_of xout xin + 1)"
    using sorted_wrt_nth_less[OF v(2), of "in0_of xout xin" "in0_of xout xin + 1"] lt by simp
  moreover have "xout ! 0 < xout ! 1"
    using sorted_wrt_nth_less[OF v(1), of 0 1] v(3) by simp
  ultimately show ?thesis using spacings_ok(2)[OF v(3,4,5)] by simp
qed

lemma bindE_Inr: "bindE m f = Inr y \<longleftrightarrow> (\<exists>v. m = Inr v \<and> f v = Inr y)"
  by (cases m) simp_all

lemma np_interp_Inr: "np_interp xs xp fp = Inr ys \<Longrightarrow> length ys = length xs"
  by (auto simp: np_interp_def split: if_splits)

lemma rebin1d_box_length:
  assumes "rebin1d_box xout xin yin dx_in dx_out = Inr out"
  shows "length out = length xout"
proof -
  from assms obtain in_i where
    "mapE (\<lambda>i. bindE (box_bin in_i (length xout) (length xin) i) (rebin1d_value yin))
       [0..<length xout] = Inr out"
    by (auto simp: rebin1d_box_def bindE_Inr split: if_splits)
  from mapE_length[OF this] show ?thesis by simp
qed

lemma rebin1d_length:
  assumes "rebin1d xout xin yin = Inr out"
  shows "length out = length xout"
proof -
  from assms obtain dx_in dx_out where
    r: "(if dx_out < dx_in then bindE (np_interp xout xin yin) (\<lambda>ys. Inr (map Fin ys))
         else rebin1d_box xout xin yin dx_in dx_out) = Inr out"
    by (auto simp: rebin1d_def bindE_Inr)
  show ?thesis
  proof (cases "dx_out < dx_in")
    case True
    then obtain ys where "np_interp xout xin yin = Inr ys" "out = map Fin ys"
      using r by (auto simp: bindE_Inr)
    then show ?thesis using np_interp_Inr by auto
  next
    case False
    then show ?thesis using r rebin1d_box_length by simp
  qed
qed

lemma cube_plane_shape:
  assumes "cube_plane c b = Inr p"
  shows "length p = shape1 c \<and> (\<forall>r \<in> set p. length r = shape2 c)"
  using assms by (auto simp: cube_plane_def bindE_Inr)

lemma rebin_cube_box_shape:
  assumes "rebin_cube_box xout xin c dx_in dx_out = Inr out"
  shows "length (planes out) = length xout \<and> shape1 out = shape1 c \<and> shape2 out = shape2 c
         \<and> wf_cube out"
proof -
  from assms obtain in_i ps where
    m: "mapE (\<lambda>i. bindE (box_bin in_i (length xout) (length xin) i) (cube_plane c))
       [0..<length xout] = Inr ps"
    and o: "out = \<lparr>shape1 = shape1 c, shape2 = shape2 c, planes = ps\<rparr>"
    by (auto simp: rebin_cube_box_def bindE_Inr split: if_splits)
  have len: "length ps = length xout" using mapE_length[OF m] by simp
  have "length p = shape1 c \<and> (\<forall>r \<in> set p. length r = shape2 c)" if "p \<in> set ps" for p
  proof -
    from that obtain i where i: "i < length xout" "ps ! i = p"
      using len by (auto simp: in_set_conv_nth)
    have "bindE (box_bin in_i (length xout) (length xin) i) (cube_plane c) = Inr p"
      using mapE_nth[OF m, of i] i by simp
    then obtain b where "cube_plane c b = Inr p" by (auto simp: bindE_Inr)
    then show ?thesis by (rule cube_plane_shape)
  qed
  then show ?thesis using len o by (simp add: wf_cube_def)
qed

lemma rebin_cube_interp_shape:
  assumes "rebin_cube_interp xout xin c = Inr out"
  shows "length (planes out) = length xout \<and> shape1 out = shape1 c \<and> shape2 out = shape2 c
         \<and> wf_cube out"
  using assms by (auto simp: rebin_cube_interp_def bindE_Inr wf_cube_def)

lemma rebin_cube_shape:
  assumes "rebin_cube_1d xout xin c = Inr out"
  shows "length (planes out) = length xout \<and> shape1 out = shape1 c \<and> shape2 out = shape2 c
         \<and> wf_cube out"
proof -
  from assms obtain dx_in dx_out where
    r: "(if dx_out < dx_in then rebin_cube_interp xout xin c
         else rebin_cube_box xout xin c dx_in dx_out) = Inr out"
    by (auto simp: rebin_cube_1d_def bindE_Inr)
  show ?thesis
    using r rebin_cube_interp_shape[of xout xin c out]
      rebin_cube_box_shape[of xout xin c dx_in dx_out out]
    by (cases "dx_out < dx_in") simp_all
qed

lemma rebin1d_returns:
  assumes "valid_grids xout xin" "length yin = length xin"
  shows "\<exists>out. rebin1d xout xin yin = Inr out"
proof -
  obtain dx_in dx_out where sp: "spacings xout xin = Inr (dx_in, dx_out)" and pos: "0 < dx_in"
    using valid_spacings[OF assms(1)] by auto
  have v: "sorted xout" "2 \<le> length xout" "xin \<noteq> []"
    using assms(1) by (auto simp: valid_grids_def strict_sorted_imp_sorted)
  show ?thesis
  proof (cases "dx_out < dx_in")
    case True
    then show ?thesis using sp v(3) assms(2) by (simp add: rebin1d_def np_interp_def)
  next
    case False
    then show ?thesis
      using sp rebin1d_box_ok[OF v(1,2,3) _ assms(2), of dx_in dx_out] pos
      by (simp add: rebin1d_def)
  qed
qed

lemma spectrum_length [simp]: "length (spectrum c j i) = length (planes c)"
  by (simp add: spectrum_def)

lemma rebin_cube_interp_ok:
  assumes "xin \<noteq> []" "length (planes c) = length xin"
  shows "\<exists>out. rebin_cube_interp xout xin c = Inr out"
proof -
  have "mapE (\<lambda>i. mapE (\<lambda>j. np_interp xout xin (spectrum c j i)) [0..<shape1 c]) [0..<shape2 c]
        = Inr (map (\<lambda>i. map (\<lambda>j. map (\<lambda>x. interp_at x xin (spectrum c j i)) xout) [0..<shape1 c])
                 [0..<shape2 c])"
    using assms by (intro mapE_map) (simp add: np_interp_def)
  then show ?thesis by (simp add: rebin_cube_interp_def)
qed

lemma rebin_cube_returns:
  assumes "valid_grids xout xin" "length (planes c) = length xin"
  shows "\<exists>out. rebin_cube_1d xout xin c = Inr out"
proof -
  obtain dx_in dx_out where sp: "spacings xout xin = Inr (dx_in, dx_out)" and pos: "0 < dx_in"
    using valid_spacings[OF assms(1)] by auto
  have v: "sorted xout" "2 \<le> length xout" "xin \<noteq> []"
    using assms(1) by (auto simp: valid_grids_def strict_sorted_imp_sorted)
  show ?thesis
  proof (cases "dx_out < dx_in")
    case True
    then show ?thesis using sp rebin_cube_interp_ok[OF v(3) assms(2)]
      by (simp add: rebin_cube_1d_def)
  next
    case False
    then show ?thesis
      using sp rebin_cube_box_ok[OF v(1,2,3) _ assms(2), of dx_in dx_out] pos
      by (simp add: rebin_cube_1d_def)
  qed
qed

lemma py_get_Inr_nonneg: "py_get xs i = Inr v \<Longrightarrow> 0 \<le> i \<Longrightarrow> i < int (length xs) \<and> v = xs ! nat i"
  by (auto simp: py_get_def split: if_splits)

lemma spacings_Inr_pos:
  assumes "spacings xout xin = Inr (dx_in, dx_out)" "sorted_wrt (<) xin"
  shows "0 < dx_in"
proof -
  from assms(1) obtain x0 r0 hi lo where
    i: "np_interp1 x0 xin (np_range (length xin)) = Inr r0"
    and h: "py_get xin (py_int r0 + 1) = Inr hi"
    and l: "py_get xin (py_int r0) = Inr lo"
    and d: "dx_in = hi - lo"
    by (auto simp: spacings_def bindE_Inr Let_def)
  from i have ne: "xin \<noteq> []" and r0: "r0 = interp_at x0 xin (np_range (length xin))"
    by (auto simp: np_interp1_def split: if_splits)
  have "0 \<le> r0" using interp_range(1)[OF ne] r0 by simp
  then have k: "0 \<le> py_int r0" by (simp add: py_int_def)
  have hh: "py_int r0 + 1 < int (length xin)" "hi = xin ! nat (py_int r0 + 1)"
    using py_get_Inr_nonneg[OF h] k by simp_all
  have ll: "lo = xin ! nat (py_int r0)" using py_get_Inr_nonneg[OF l] k by simp
  have "xin ! nat (py_int r0) < xin ! nat (py_int r0 + 1)"
    using hh(1) k by (intro sorted_wrt_nth_less[OF assms(2)]) auto
  then show ?thesis using d hh(2) ll by simp
qed

section \<open>Output shapes\<close>

text \<open>
  Claim C7: the output of \<^verbatim>\<open>rebin1d\<close> has the length of the output grid and the output of
  \<^verbatim>\<open>rebin_cube_1d\<close> has shape \<open>(len(xout), cube.shape[1], cube.shape[2])\<close>, in both
  regimes. Whatever the inputs, a returned array has that shape; and on valid grids with
  values (a cube) of the input grid's length the functions do return.
\<close>

theorem rebin_output_shape:
  "(\<forall>out. rebin1d xout xin yin = Inr out \<longrightarrow> length out = length xout)
   \<and> (\<forall>out. rebin_cube_1d xout xin c = Inr out \<longrightarrow>
          length (planes out) = length xout \<and> shape1 out = shape1 c \<and> shape2 out = shape2 c
          \<and> wf_cube out)
   \<and> (valid_grids xout xin \<longrightarrow>
        (length yin = length xin \<longrightarrow> (\<exists>out. rebin1d xout xin yin = Inr out))
        \<and> (length (planes c) = length xin \<longrightarrow> (\<exists>out. rebin_cube_1d xout xin c = Inr out)))"
  using rebin1d_length rebin_cube_shape rebin1d_returns rebin_cube_returns by blast

theorem rebin_output_shape_witness:
  "valid_grids [0, 2, 4] [0, 1, 2, 3, 4]
   \<and> (\<exists>out. rebin1d [0, 2, 4] [0, 1, 2, 3, 4] [1, 2, 3, 4, 5] = Inr out \<and> length out = 3)
   \<and> (\<exists>out. rebin_cube_1d [0, 2, 4] [0, 1, 2, 3, 4]
               \<lparr>shape1 = 1, shape2 = 1, planes = [[[1]], [[2]], [[3]], [[4]], [[5]]]\<rparr> = Inr out
             \<and> length (planes out) = 3 \<and> shape1 out = 1 \<and> shape2 out = 1 \<and> wf_cube out)"
proof -
  have v: "valid_grids [0, 2, 4] [0, 1, 2, 3, 4]" by (simp add: valid_grids_def)
  show ?thesis
    using rebin_output_shape[of "[0, 2, 4]" "[0, 1, 2, 3, 4]" "[1, 2, 3, 4, 5]"
        "\<lparr>shape1 = 1, shape2 = 1, planes = [[[1]], [[2]], [[3]], [[4]], [[5]]]\<rparr>"] v
    by auto
qed

section \<open>Index safety of the box regime\<close>

text \<open>
  Claim C10: in the box-integration regime of \<^verbatim>\<open>rebin1d\<close> and \<^verbatim>\<open>rebin_cube_1d\<close>, on
  strictly increasing grids of length at least two, every array access is within bounds.
  The fractional indices \<open>in_i\<close> lie in \<open>[0, len(xin) - 1]\<close>; for every output bin
  the reads of \<open>in_i\<close> succeed, \<open>0 \<le> istart \<le> istop \<le> len(xin) - 1\<close>, so the slice
  \<open>istart..istop+1\<close> and both edge reads are in range; the last bin, which reads
  \<open>in_i[i-1]\<close>, has \<open>i \<ge> 1\<close>; hence neither function raises once values (a cube)
  of the input grid's length are given.
\<close>

theorem box_regime_in_bounds:
  assumes "sorted_wrt (<) xout" "sorted_wrt (<) xin" "2 \<le> length xout" "2 \<le> length xin"
    and "spacings xout xin = Inr (dx_in, dx_out)" "\<not> dx_out < dx_in"
  shows "\<exists>in_i. np_interp (map (\<lambda>x. x - dx_out * 0.5) xout) xin (np_range (length xin)) = Inr in_i
           \<and> length in_i = length xout
           \<and> (\<forall>i<length xout. 0 \<le> in_i ! i \<and> in_i ! i \<le> real (length xin - 1))
           \<and> (\<forall>i<length xout. \<exists>b. box_bin in_i (length xout) (length xin) i = Inr b
                  \<and> 0 \<le> istart b \<and> istart b \<le> istop b \<and> istop b \<le> int (length xin) - 1
                  \<and> (i = length xout - 1 \<longrightarrow> 1 \<le> i))
           \<and> (length yin = length xin \<longrightarrow>
                  (\<exists>out. rebin1d_box xout xin yin dx_in dx_out = Inr out))
           \<and> (length (planes c) = length xin \<longrightarrow>
                  (\<exists>out. rebin_cube_box xout xin c dx_in dx_out = Inr out))"
proof -
  let ?e = "edges xout xin dx_out"
  have so: "sorted xout" using assms(1) by (rule strict_sorted_imp_sorted)
  have ne: "xin \<noteq> []" using assms(4) by auto
  have dx: "dx_in \<noteq> 0" using spacings_Inr_pos[OF assms(5,2)] by simp
  have 1: "np_interp (map (\<lambda>x. x - dx_out * 0.5) xout) xin (np_range (length xin)) = Inr ?e"
    using ne by (rule np_interp_edges)
  have 2: "\<forall>i<length xout. 0 \<le> ?e ! i \<and> ?e ! i \<le> real (length xin - 1)"
    using edges_range[OF ne] by blast
  have 3: "\<forall>i<length xout. \<exists>b. box_bin ?e (length xout) (length xin) i = Inr b
                  \<and> 0 \<le> istart b \<and> istart b \<le> istop b \<and> istop b \<le> int (length xin) - 1
                  \<and> (i = length xout - 1 \<longrightarrow> 1 \<le> i)"
  proof (intro allI impI)
    fix i assume i: "i < length xout"
    have "box_bin ?e (length xout) (length xin) i = Inr (bin_at ?e (length xout) (length xin) i)"
      using box_bin_ok[of ?e "length xout" i] assms(3) i by simp
    moreover have "i = length xout - 1 \<longrightarrow> 1 \<le> i" using assms(3) by auto
    ultimately show "\<exists>b. box_bin ?e (length xout) (length xin) i = Inr b
                  \<and> 0 \<le> istart b \<and> istart b \<le> istop b \<and> istop b \<le> int (length xin) - 1
                  \<and> (i = length xout - 1 \<longrightarrow> 1 \<le> i)"
      using bin_bounds(3,4,5)[OF so ne assms(3) i, of dx_out] by blast
  qed
  have 4: "length yin = length xin \<longrightarrow> (\<exists>out. rebin1d_box xout xin yin dx_in dx_out = Inr out)"
    using rebin1d_box_ok[OF so assms(3) ne dx] by blast
  have 5: "length (planes c) = length xin \<longrightarrow>
             (\<exists>out. rebin_cube_box xout xin c dx_in dx_out = Inr out)"
    using rebin_cube_box_ok[OF so assms(3) ne dx] by blast
  show ?thesis using 1 2 3 4 5 edges_length by blast
qed

theorem box_regime_in_bounds_witness:
  "sorted_wrt (<) [0, 2, 4 :: real] \<and> sorted_wrt (<) [0, 1, 2, 3, 4 :: real]
   \<and> spacings [0, 2, 4] [0, 1, 2, 3, 4] = Inr (1, 2) \<and> \<not> (2 :: real) < 1
   \<and> (\<exists>out. rebin1d_box [0, 2, 4] [0, 1, 2, 3, 4] [1, 2, 3, 4, 5] 1 2 = Inr out)
   \<and> (\<exists>out. rebin_cube_box [0, 2, 4] [0, 1, 2, 3, 4]
               \<lparr>shape1 = 1, shape2 = 1, planes = [[[1]], [[2]], [[3]], [[4]], [[5]]]\<rparr> 1 2 = Inr out)"
proof -
  have s: "spacings [0, 2, 4] [0, 1, 2, 3, 4] = Inr (1, 2)" by code_simp
  have a: "sorted_wrt (<) [0, 2, 4 :: real]" "sorted_wrt (<) [0, 1, 2, 3, 4 :: real]"
    "2 \<le> length [0, 2, 4 :: real]" "2 \<le> length [0, 1, 2, 3, 4 :: real]" "\<not> (2 :: real) < 1"
    by simp_all
  show ?thesis
    using box_regime_in_bounds[OF a(1,2,3,4) s a(5), of "[1, 2, 3, 4, 5]"
        "\<lparr>shape1 = 1, shape2 = 1, planes = [[[1]], [[2]], [[3]], [[4]], [[5]]]\<rparr>"] s
    by (elim exE conjE) simp
qed

section \<open>Flux conservation of one box bin\<close>

lemma py_slice_in:
  assumes "0 \<le> a" "a \<le> e" "e < int (length ys)"
  shows "py_slice ys a (e + 1) = take (nat (e + 1 - a)) (drop (nat a) ys)"
  using assms by (simp add: py_slice_def Let_def min_def)

lemma sum_list_take_drop:
  fixes ys :: "real list"
  assumes "a + m \<le> length ys"
  shows "sum_list (take m (drop a ys)) = (\<Sum>j<m. ys ! (a + j))"
proof -
  have "sum_list (take m (drop a ys)) = (\<Sum>j = 0..<length (take m (drop a ys)). take m (drop a ys) ! j)"
    by (rule sum_list_sum_nth)
  also have "\<dots> = (\<Sum>j = 0..<m. take m (drop a ys) ! j)" using assms by simp
  also have "\<dots> = (\<Sum>j = 0..<m. ys ! (a + j))"
    using assms by (intro sum.cong) simp_all
  finally show ?thesis by (simp add: lessThan_atLeast0)
qed

lemma sum_list_py_slice:
  fixes ys :: "real list"
  assumes "0 \<le> a" "a \<le> e" "e < int (length ys)"
  shows "sum_list (py_slice ys a (e + 1)) = (\<Sum>k \<in> {a..e}. ys ! nat k)"
proof -
  let ?m = "nat (e + 1 - a)"
  have "sum_list (py_slice ys a (e + 1)) = (\<Sum>j<?m. ys ! (nat a + j))"
    using assms by (simp add: py_slice_in sum_list_take_drop)
  also have "\<dots> = (\<Sum>k \<in> {a..e}. ys ! nat k)"
    using assms
    by (intro sum.reindex_bij_witness[where i = "\<lambda>k. nat (k - a)" and j = "\<lambda>j. a + int j"])
       (auto simp: nat_add_distrib)
  finally show ?thesis .
qed

lemma weight_sum:
  assumes "istart b < istop b"
    and "frac1 b = rstart b - real_of_int (istart b)"
    and "frac2 b = 1 - (rstop b - real_of_int (istop b))"
  shows "(\<Sum>k \<in> {istart b..istop b}. weight b k) = rstop b - rstart b"
proof -
  let ?S = "{istart b..istop b}"
  have w: "weight b k = 1 - (if k = istart b then frac1 b else 0) - (if k = istop b then frac2 b else 0)"
    for k using assms(1) by (simp add: weight_def)
  have "(\<Sum>k \<in> ?S. weight b k) = (\<Sum>k \<in> ?S. 1) - (\<Sum>k \<in> ?S. if k = istart b then frac1 b else 0)
          - (\<Sum>k \<in> ?S. if k = istop b then frac2 b else 0)"
    by (simp add: w sum_subtractf)
  also have "\<dots> = real_of_int (istop b - istart b + 1) - frac1 b - frac2 b"
    using assms(1) by simp
  finally show ?thesis using assms(2,3) by simp
qed

lemma weighted_sum:
  fixes y :: "int \<Rightarrow> real"
  assumes "istart b < istop b"
  shows "(\<Sum>k \<in> {istart b..istop b}. weight b k * y k)
           = (\<Sum>k \<in> {istart b..istop b}. y k) - frac1 b * y (istart b) - frac2 b * y (istop b)"
proof -
  let ?S = "{istart b..istop b}"
  have w: "weight b k * y k = y k - (if k = istart b then frac1 b * y k else 0)
             - (if k = istop b then frac2 b * y k else 0)"
    for k using assms(1) by (simp add: weight_def algebra_simps)
  have "(\<Sum>k \<in> ?S. weight b k * y k) = (\<Sum>k \<in> ?S. y k)
          - (\<Sum>k \<in> ?S. if k = istart b then frac1 b * y k else 0)
          - (\<Sum>k \<in> ?S. if k = istop b then frac2 b * y k else 0)"
    by (simp add: w sum_subtractf)
  then show ?thesis using assms(1) by simp
qed

lemma rebin1d_box_nth:
  assumes "rebin1d_box xout xin yin dx_in dx_out = Inr out" "xin \<noteq> []" "i < length xout"
  shows "bindE (box_bin (edges xout xin dx_out) (length xout) (length xin) i) (rebin1d_value yin)
           = Inr (out ! i)"
proof -
  have "mapE (\<lambda>i. bindE (box_bin (edges xout xin dx_out) (length xout) (length xin) i)
                  (rebin1d_value yin)) [0..<length xout] = Inr out"
    using assms(1) by (simp add: rebin1d_box_def np_interp_edges_half[OF assms(2)] split: if_splits)
  from mapE_nth[OF this, of i] assms(3) show ?thesis by simp
qed

lemma rebin1d_box_regime:
  assumes "spacings xout xin = Inr (dx_in, dx_out)" "\<not> dx_out < dx_in"
  shows "rebin1d xout xin yin = rebin1d_box xout xin yin dx_in dx_out"
  using assms by (simp add: rebin1d_def)

text \<open>
  Claim C1: in the box regime of \<^verbatim>\<open>rebin1d\<close>, for an output bin whose stop index is not
  clamped and with \<open>istart < istop\<close>, the weights the formula applies to the input pixels
  \<open>istart..istop\<close> sum to the bin width \<open>rstop - rstart\<close>; each weight is the length of
  the part of \<open>[rstart, rstop]\<close> inside the pixel \<open>[k, k + 1]\<close>, so the weights partition
  the integration interval; and \<open>output[i] * (rstop - rstart)\<close> is the sum of the input
  values with these weights.
\<close>

theorem box_weights_partition:
  assumes "sorted_wrt (<) xout" "sorted_wrt (<) xin" "2 \<le> length xout" "2 \<le> length xin"
    and "length yin = length xin"
    and "spacings xout xin = Inr (dx_in, dx_out)" "\<not> dx_out < dx_in"
    and "rebin1d xout xin yin = Inr out"
    and "np_interp (map (\<lambda>x. x - dx_out * 0.5) xout) xin (np_range (length xin)) = Inr in_i"
    and "i < length xout" "box_bin in_i (length xout) (length xin) i = Inr b"
    and "py_int (rstop b) \<le> int (length xin) - 1" "istart b < istop b"
  shows "(\<Sum>k \<in> {istart b..istop b}. weight b k) = rstop b - rstart b
       \<and> (\<forall>k \<in> {istart b..istop b}.
             weight b k = min (real_of_int k + 1) (rstop b) - max (real_of_int k) (rstart b))
       \<and> (\<exists>v. out ! i = Fin v
             \<and> v * (rstop b - rstart b) = (\<Sum>k \<in> {istart b..istop b}. weight b k * yin ! nat k))"
proof -
  have so: "sorted xout" using assms(1) by (rule strict_sorted_imp_sorted)
  have ne: "xin \<noteq> []" using assms(4) by auto
  have e: "in_i = edges xout xin dx_out" using assms(9) np_interp_edges[OF ne, of dx_out xout] by simp
  have b: "b = bin_at (edges xout xin dx_out) (length xout) (length xin) i"
    using box_bin_ok[of "edges xout xin dx_out" "length xout" i "length xin"] assms(3,10,11) e by simp
  note bb = bin_bounds[OF so ne assms(3,10), of dx_out, folded b]
  have f1: "frac1 b = rstart b - real_of_int (istart b)"
    and f2: "frac2 b = 1 - (rstop b - real_of_int (istop b))"
    unfolding b by (rule bin_at_sel)+
  have r0: "0 \<le> rstop b" using bb(1,2) by simp
  have st: "istop b = \<lfloor>rstop b\<rfloor>"
    using assms(12) r0 bin_at_sel(4)[of "edges xout xin dx_out" "length xout" "length xin" i]
    by (simp add: b[symmetric] py_int_def)
  have lo: "real_of_int (istart b) \<le> rstart b" "rstart b < real_of_int (istart b) + 1"
    using bb(6) by linarith+
  have hi: "real_of_int (istop b) \<le> rstop b" "rstop b < real_of_int (istop b) + 1"
    using st by linarith+
  have gap: "real_of_int (istart b) + 1 \<le> real_of_int (istop b)"
    using assms(13) by (metis of_int_1 of_int_add of_int_le_iff zless_imp_add1_zle)
  have 1: "(\<Sum>k \<in> {istart b..istop b}. weight b k) = rstop b - rstart b"
    using weight_sum[OF assms(13) f1 f2] .
  have 2: "\<forall>k \<in> {istart b..istop b}.
             weight b k = min (real_of_int k + 1) (rstop b) - max (real_of_int k) (rstart b)"
  proof
    fix k assume k: "k \<in> {istart b..istop b}"
    consider "k = istart b" | "k = istop b" "k \<noteq> istart b" | "istart b < k" "k < istop b"
      using k by force
    then show "weight b k = min (real_of_int k + 1) (rstop b) - max (real_of_int k) (rstart b)"
    proof cases
      case 1
      then show ?thesis using lo hi gap f1 by (simp add: weight_def min_def max_def)
    next
      case 2
      then show ?thesis using lo hi gap f2 by (simp add: weight_def min_def max_def)
    next
      case 3
      then have "real_of_int (istart b) + 1 \<le> real_of_int k" "real_of_int k + 1 \<le> real_of_int (istop b)"
        by linarith+
      then show ?thesis using 3 lo hi by (simp add: weight_def min_def max_def)
    qed
  qed
  have w: "0 < rstop b - rstart b" using lo hi gap by linarith
  have bx: "rebin1d_box xout xin yin dx_in dx_out = Inr out"
    using assms(8) rebin1d_box_regime[OF assms(6,7)] by simp
  have val: "rebin1d_value yin b = Inr (out ! i)"
    using rebin1d_box_nth[OF bx ne assms(10)] assms(11) e by simp
  have ia: "py_get yin (istart b) = Inr (yin ! nat (istart b))"
    using bb(3,4,5) assms(5) by (intro py_get_in) auto
  have ie: "py_get yin (istop b) = Inr (yin ! nat (istop b))"
    using bb(3,4,5) assms(5) by (intro py_get_in) auto
  have sl: "sum_list (py_slice yin (istart b) (istop b + 1)) = (\<Sum>k \<in> {istart b..istop b}. yin ! nat k)"
    using bb(3,4,5) assms(5) by (intro sum_list_py_slice) auto
  let ?num = "(\<Sum>k \<in> {istart b..istop b}. yin ! nat k) - frac1 b * yin ! nat (istart b)
                - frac2 b * yin ! nat (istop b)"
  have "out ! i = Fin (?num / (rstop b - rstart b))"
    using val assms(13) w by (simp add: rebin1d_value_def ia ie sl np_div_def)
  moreover have "?num / (rstop b - rstart b) * (rstop b - rstart b) = ?num" using w by simp
  moreover have "(\<Sum>k \<in> {istart b..istop b}. weight b k * yin ! nat k) = ?num"
    using weighted_sum[OF assms(13), of "\<lambda>k. yin ! nat k"] .
  ultimately have 3: "\<exists>v. out ! i = Fin v
             \<and> v * (rstop b - rstart b) = (\<Sum>k \<in> {istart b..istop b}. weight b k * yin ! nat k)"
    by simp
  show ?thesis using 1 2 3 by blast
qed

theorem box_weights_partition_witness:
  "sorted_wrt (<) [1/2, 2, 7/2 :: real] \<and> sorted_wrt (<) [0, 1, 2, 3, 4 :: real]
   \<and> spacings [1/2, 2, 7/2] [0, 1, 2, 3, 4] = Inr (1, 3/2) \<and> \<not> (3/2 :: real) < 1
   \<and> rebin1d [1/2, 2, 7/2] [0, 1, 2, 3, 4] [1, 2, 3, 4, 5] = Inr [Fin (6/5), Fin (5/2), Fin 4]
   \<and> box_bin [0, 5/4, 11/4] 3 5 1
         = Inr \<lparr>rstart = 5/4, istart = 1, rstop = 11/4, istop = 2, frac1 = 1/4, frac2 = 1/4\<rparr>
   \<and> (\<Sum>k \<in> {1..2}. weight \<lparr>rstart = 5/4, istart = 1, rstop = 11/4, istop = 2,
                               frac1 = 1/4, frac2 = 1/4\<rparr> k) = 11/4 - 5/4
   \<and> (\<exists>v. [Fin (6/5), Fin (5/2), Fin 4] ! 1 = Fin v \<and> v * (11/4 - 5/4)
         = (\<Sum>k \<in> {1..2}. weight \<lparr>rstart = 5/4, istart = 1, rstop = 11/4, istop = 2,
                                  frac1 = 1/4, frac2 = 1/4\<rparr> k * [1, 2, 3, 4, 5] ! nat k))"
proof -
  let ?xo = "[1/2, 2, 7/2 :: real]" and ?xi = "[0, 1, 2, 3, 4 :: real]"
  let ?y = "[1, 2, 3, 4, 5 :: real]"
  let ?b = "\<lparr>rstart = 5/4, istart = 1, rstop = 11/4, istop = 2, frac1 = 1/4, frac2 = 1/4\<rparr>"
  have a: "sorted_wrt (<) ?xo" "sorted_wrt (<) ?xi" "2 \<le> length ?xo" "2 \<le> length ?xi"
    "length ?y = length ?xi" "\<not> (3/2 :: real) < 1" "(1::nat) < length ?xo"
    by simp_all
  have s: "spacings ?xo ?xi = Inr (1, 3/2)" by code_simp
  have r: "rebin1d ?xo ?xi ?y = Inr [Fin (6/5), Fin (5/2), Fin 4]" by code_simp
  have n: "np_interp (map (\<lambda>x. x - 3/2 * 0.5) ?xo) ?xi (np_range (length ?xi)) = Inr [0, 5/4, 11/4]"
    by code_simp
  have b3: "box_bin [0, 5/4, 11/4] 3 5 1 = Inr ?b" by code_simp
  have l: "length ?xo = 3" "length ?xi = 5" by simp_all
  have b: "box_bin [0, 5/4, 11/4] (length ?xo) (length ?xi) 1 = Inr ?b"
    unfolding l by (rule b3)
  have c: "py_int (rstop ?b) \<le> int (length ?xi) - 1" by (simp add: py_int_def)
  have d: "istart ?b < istop ?b" by simp
  have t: "(\<Sum>k \<in> {istart ?b..istop ?b}. weight ?b k) = rstop ?b - rstart ?b
           \<and> (\<exists>v. [Fin (6/5), Fin (5/2), Fin 4] ! 1 = Fin v \<and> v * (rstop ?b - rstart ?b)
                 = (\<Sum>k \<in> {istart ?b..istop ?b}. weight ?b k * ?y ! nat k))"
    using box_weights_partition[OF a(1,2,3,4,5) s a(6) r n a(7) b c d] by blast
  have sel: "istart ?b = 1" "istop ?b = 2" "rstart ?b = 5/4" "rstop ?b = 11/4" by simp_all
  show ?thesis using t a(1,2,6) s r b3 unfolding sel by blast
qed

section \<open>The cube rebinner is the 1-D rebinner at every spatial position\<close>

lemma py_get_map: "py_get (map h xs) k = map_sum id h (py_get xs k)"
  by (auto simp: py_get_def intro!: nth_map)

lemma py_slice_map: "py_slice (map h xs) a b = map h (py_slice xs a b)"
  by (simp add: py_slice_def Let_def take_map drop_map)

lemma py_slice_single:
  assumes "0 \<le> a" "a < int (length xs)"
  shows "py_slice xs a (a + 1) = [xs ! nat a]"
proof -
  have "py_slice xs a (a + 1) = take 1 (drop (nat a) xs)"
    using assms by (simp add: py_slice_def Let_def min_def)
  also have "\<dots> = [xs ! nat a]"
    using assms by (simp add: take_Suc_conv_app_nth)
  finally show ?thesis .
qed

lemma mapE_map_sum:
  "mapE (\<lambda>x. map_sum id g (f x)) xs = map_sum id (map g) (mapE f xs)"
proof (induction xs)
  case Nil
  then show ?case by simp
next
  case (Cons x xs)
  then show ?case by (cases "f x"; cases "mapE f xs") simp_all
qed

lemma box_bin_istart_nonneg:
  assumes "box_bin in_i n_out n_in i = Inr b" "\<forall>r \<in> set in_i. 0 \<le> r"
  shows "0 \<le> istart b"
proof -
  from assms(1) obtain rs where g: "py_get in_i (int i) = Inr rs" and s: "istart b = py_int rs"
    by (auto simp: box_bin_def bindE_Inr Let_def)
  from py_get_Inr_nonneg[OF g] have "rs \<in> set in_i" by simp
  then have "0 \<le> rs" using assms(2) by blast
  then show ?thesis using s by (simp add: py_int_def)
qed

lemma value_pixel:
  assumes "0 \<le> istart b" "j < shape1 c" "i < shape2 c"
  shows "rebin1d_value (spectrum c j i) b = map_sum id (\<lambda>p. p ! j ! i) (cube_plane c b)"
proof -
  let ?h = "\<lambda>p :: real list list. p ! j ! i"
  have sp: "spectrum c j i = map ?h (planes c)" by (simp add: spectrum_def)
  show ?thesis
  proof (cases "py_get (planes c) (istart b)")
    case (Inl e)
    then have "istart b = istop b \<Longrightarrow> py_get (planes c) (istop b) = Inl e" by simp
    then show ?thesis using Inl
      by (cases "istart b = istop b") (simp_all add: rebin1d_value_def cube_plane_def sp py_get_map)
  next
    case (Inr pa)
    note a = Inr
    have ia: "istart b < int (length (planes c))" "pa = planes c ! nat (istart b)"
      using py_get_Inr_nonneg[OF a assms(1)] by simp_all
    show ?thesis
    proof (cases "istart b = istop b")
      case True
      have sl: "py_slice (planes c) (istop b) (istop b + 1) = [pa]"
        using py_slice_single[OF assms(1) ia(1)] ia(2) True by simp
      have sl': "py_slice (planes c) (istop b) (1 + istop b) = [pa]"
        using sl by (simp add: add.commute)
      have e: "py_get (planes c) (istop b) = Inr pa" using a True by simp
      show ?thesis using True assms(2,3)
        by (simp add: rebin1d_value_def cube_plane_def sp py_get_map e sl sl' algebra_simps)
    next
      case False
      show ?thesis
      proof (cases "py_get (planes c) (istop b)")
        case (Inl e)
        then show ?thesis using False a
          by (simp add: rebin1d_value_def cube_plane_def sp py_get_map)
      next
        case (Inr pb)
        then show ?thesis using False a assms(2,3)
          by (simp add: rebin1d_value_def cube_plane_def sp py_get_map py_slice_map o_def)
      qed
    qed
  qed
qed

lemma mapE_first_Inl: "0 < n \<Longrightarrow> f 0 = Inl e \<Longrightarrow> mapE f [0..<n] = Inl e"
  by (simp add: upt_conv_Cons)

lemma spectrum_record:
  "spectrum \<lparr>shape1 = a, shape2 = b, planes = ps\<rparr> j i = map (\<lambda>p. p ! j ! i) ps"
  by (simp add: spectrum_def)

lemma box_pixel:
  assumes "j < shape1 c" "i < shape2 c"
  shows "rebin1d_box xout xin (spectrum c j i) dx_in dx_out
           = map_sum id (\<lambda>out. spectrum out j i) (rebin_cube_box xout xin c dx_in dx_out)"
proof (cases "dx_in = 0 \<or> xin = []")
  case True
  then show ?thesis by (auto simp: rebin1d_box_def rebin_cube_box_def np_interp_def)
next
  case False
  then have ne: "xin \<noteq> []" and dx: "dx_in \<noteq> 0" by simp_all
  let ?e = "edges xout xin dx_out" and ?h = "\<lambda>p :: npfloat list list. p ! j ! i"
  let ?bb = "\<lambda>k. box_bin ?e (length xout) (length xin) k"
  have pos: "\<forall>r \<in> set ?e. 0 \<le> r" using interp_range(1)[OF ne] by (auto simp: edges_def)
  have step: "bindE (?bb k) (rebin1d_value (spectrum c j i))
                = map_sum id ?h (bindE (?bb k) (cube_plane c))" for k
  proof (cases "?bb k")
    case (Inl e)
    then show ?thesis by simp
  next
    case (Inr b)
    then show ?thesis
      using value_pixel[OF box_bin_istart_nonneg[OF Inr pos] assms] by simp
  qed
  have "rebin1d_box xout xin (spectrum c j i) dx_in dx_out
          = mapE (\<lambda>k. bindE (?bb k) (rebin1d_value (spectrum c j i))) [0..<length xout]"
    using dx by (simp add: rebin1d_box_def np_interp_edges_half[OF ne])
  also have "\<dots> = mapE (\<lambda>k. map_sum id ?h (bindE (?bb k) (cube_plane c))) [0..<length xout]"
    by (simp add: step)
  also have "\<dots> = map_sum id (map ?h) (mapE (\<lambda>k. bindE (?bb k) (cube_plane c)) [0..<length xout])"
    by (rule mapE_map_sum)
  also have "\<dots> = map_sum id (\<lambda>out. spectrum out j i) (rebin_cube_box xout xin c dx_in dx_out)"
    using dx
    by (cases "mapE (\<lambda>k. bindE (?bb k) (cube_plane c)) [0..<length xout]")
       (simp_all add: rebin_cube_box_def np_interp_edges_half[OF ne] spectrum_record)
  finally show ?thesis .
qed

lemma interp_pixel:
  assumes "j < shape1 c" "i < shape2 c"
  shows "bindE (np_interp xout xin (spectrum c j i)) (\<lambda>ys. Inr (map Fin ys))
           = map_sum id (\<lambda>out. spectrum out j i) (rebin_cube_interp xout xin c)"
proof (cases "xin = [] \<or> length (planes c) \<noteq> length xin")
  case True
  then have bad: "np_interp xout xin (spectrum c j' i') = Inl ValueError" for j' i'
    by (auto simp: np_interp_def)
  have "mapE (\<lambda>j. np_interp xout xin (spectrum c j 0)) [0..<shape1 c] = Inl ValueError"
    using assms(1) bad
    by (intro mapE_first_Inl[where f = "\<lambda>j. np_interp xout xin (spectrum c j 0)"]) auto
  then have "mapE (\<lambda>i. mapE (\<lambda>j. np_interp xout xin (spectrum c j i)) [0..<shape1 c])
               [0..<shape2 c] = Inl ValueError"
    using assms(2)
    by (intro mapE_first_Inl[where
          f = "\<lambda>i. mapE (\<lambda>j. np_interp xout xin (spectrum c j i)) [0..<shape1 c]"]) auto
  then show ?thesis using bad by (simp add: rebin_cube_interp_def)
next
  case False
  let ?v = "\<lambda>i j. map (\<lambda>x. interp_at x xin (spectrum c j i)) xout"
  have m: "mapE (\<lambda>i. mapE (\<lambda>j. np_interp xout xin (spectrum c j i)) [0..<shape1 c])
             [0..<shape2 c] = Inr (map (\<lambda>i. map (\<lambda>j. ?v i j) [0..<shape1 c]) [0..<shape2 c])"
    using False by (intro mapE_map) (simp add: np_interp_def)
  have l: "np_interp xout xin (spectrum c j i) = Inr (?v i j)"
    using False by (simp add: np_interp_def)
  have "map (\<lambda>k. Fin (?v i j ! k)) [0..<length xout] = map Fin (?v i j)"
    by (rule nth_equalityI) simp_all
  then show ?thesis using assms
    by (simp add: rebin_cube_interp_def m l spectrum_record o_def)
qed

lemma cube_pixel:
  assumes "j < shape1 c" "i < shape2 c"
  shows "rebin1d xout xin (spectrum c j i)
           = map_sum id (\<lambda>out. spectrum out j i) (rebin_cube_1d xout xin c)"
proof (cases "spacings xout xin")
  case (Inl e)
  then show ?thesis by (simp add: rebin1d_def rebin_cube_1d_def)
next
  case (Inr d)
  obtain dx_in dx_out where d: "d = (dx_in, dx_out)" by (cases d)
  show ?thesis
    using Inr d interp_pixel[OF assms, of xout xin] box_pixel[OF assms, of xout xin dx_in dx_out]
    by (simp add: rebin1d_def rebin_cube_1d_def)
qed

text \<open>
  Claim C6: \<^verbatim>\<open>rebin_cube_1d\<close> is \<^verbatim>\<open>rebin1d\<close> applied to the spectral vector at each spatial
  position. For every position \<open>(j, i)\<close> of the cube, \<^verbatim>\<open>rebin1d\<close> on \<open>cube[:,j,i]\<close> raises
  exactly when \<^verbatim>\<open>rebin_cube_1d\<close> raises, with the same exception, and otherwise returns the
  vector \<open>new_cube[:,j,i]\<close>. In particular, when all positions hold the same spectrum,
  every position of the output holds the \<^verbatim>\<open>rebin1d\<close> result for that spectrum.
\<close>

theorem rebin_cube_pixelwise:
  "(\<forall>j<shape1 c. \<forall>i<shape2 c.
      rebin1d xout xin (spectrum c j i)
        = map_sum id (\<lambda>out. spectrum out j i) (rebin_cube_1d xout xin c))
   \<and> ((\<forall>j<shape1 c. \<forall>i<shape2 c. spectrum c j i = ys) \<longrightarrow>
        (\<forall>out. rebin_cube_1d xout xin c = Inr out \<longrightarrow>
           (\<forall>j<shape1 c. \<forall>i<shape2 c. rebin1d xout xin ys = Inr (spectrum out j i))))"
proof -
  have a: "\<forall>j<shape1 c. \<forall>i<shape2 c.
      rebin1d xout xin (spectrum c j i)
        = map_sum id (\<lambda>out. spectrum out j i) (rebin_cube_1d xout xin c)"
    using cube_pixel by blast
  have "rebin1d xout xin ys = Inr (spectrum out j i)"
    if "\<forall>j<shape1 c. \<forall>i<shape2 c. spectrum c j i = ys" "rebin_cube_1d xout xin c = Inr out"
      "j < shape1 c" "i < shape2 c" for out j i
    using cube_pixel[OF that(3,4), of xout xin] that by simp
  then show ?thesis using a by blast
qed

theorem rebin_cube_pixelwise_witness:
  "rebin_cube_1d [0, 2, 4] [0, 1, 2, 3, 4] \<lparr>shape1 = 2, shape2 = 2,
        planes = [[[1, 1], [1, 1]], [[2, 2], [2, 2]], [[3, 3], [3, 3]], [[4, 4], [4, 4]],
                  [[5, 5], [5, 5]]]\<rparr>
       = Inr \<lparr>shape1 = 2, shape2 = 2,
               planes = [[[Fin 1, Fin 1], [Fin 1, Fin 1]],
                         [[Fin (5/2), Fin (5/2)], [Fin (5/2), Fin (5/2)]],
                         [[Fin (9/2), Fin (9/2)], [Fin (9/2), Fin (9/2)]]]\<rparr>
   \<and> rebin1d [0, 2, 4] [0, 1, 2, 3, 4] [1, 2, 3, 4, 5]
        = Inr (spectrum \<lparr>shape1 = 2, shape2 = 2,
               planes = [[[Fin 1, Fin 1], [Fin 1, Fin 1]],
                         [[Fin (5/2), Fin (5/2)], [Fin (5/2), Fin (5/2)]],
                         [[Fin (9/2), Fin (9/2)], [Fin (9/2), Fin (9/2)]]]\<rparr> 0 1)"
proof -
  let ?c = "\<lparr>shape1 = 2, shape2 = 2,
        planes = [[[1, 1], [1, 1]], [[2, 2], [2, 2]], [[3, 3], [3, 3]], [[4, 4], [4, 4]],
                  [[5, 5], [5, 5 :: real]]]\<rparr>"
  let ?o = "\<lparr>shape1 = 2, shape2 = 2,
               planes = [[[Fin 1, Fin 1], [Fin 1, Fin 1]],
                         [[Fin (5/2), Fin (5/2)], [Fin (5/2), Fin (5/2)]],
                         [[Fin (9/2), Fin (9/2)], [Fin (9/2), Fin (9/2)]]]\<rparr>"
  have h: "\<forall>j<shape1 ?c. \<forall>i<shape2 ?c. spectrum ?c j i = [1, 2, 3, 4, 5]"
    by (simp add: spectrum_def less_Suc_eq numeral_2_eq_2)
  have r: "rebin_cube_1d [0, 2, 4] [0, 1, 2, 3, 4] ?c = Inr ?o" by code_simp
  have s: "(0::nat) < shape1 ?c" "(1::nat) < shape2 ?c" by simp_all
  show ?thesis
    using rebin_cube_pixelwise[of ?c "[0, 2, 4]" "[0, 1, 2, 3, 4]" "[1, 2, 3, 4, 5]"] h r s
    by blast
qed

section \<open>Regime selection\<close>

lemma seg_Cons: "seg x (a # xs) = (if a \<le> x then Suc (seg x xs) else 0)"
  by (simp add: seg_def)







section \<open>Rebinning a series onto its own grid\<close>

lemma seg_pos: "xp \<noteq> [] \<Longrightarrow> xp ! 0 \<le> x \<Longrightarrow> 0 < seg x xp"
  by (cases xp) (simp_all add: seg_Cons)

lemma seg_not_full: "a \<in> set xp \<Longrightarrow> x < a \<Longrightarrow> seg x xp < length xp"
  using seg_full[of x xp] seg_le[of x xp] by (auto simp: le_less not_le)

lemma interp_strict:
  assumes "0 < seg x xp" "seg x' xp < length xp" "x < x'"
  shows "interp_at x xp (np_range (length xp)) < interp_at x' xp (np_range (length xp))"
proof -
  let ?j = "seg x xp" and ?j' = "seg x' xp"
  have ne: "xp \<noteq> []" using assms(2) by auto
  have jj: "?j \<le> ?j'" using assms(3) by (intro seg_mono) simp
  have jlt: "?j < length xp" and j'0: "0 < ?j'" using jj assms(1,2) by simp_all
  show ?thesis
  proof (cases "?j = ?j'")
    case True
    have lo: "xp ! (?j - 1) \<le> x" using seg_below assms(1) by simp
    have hi: "x' < xp ! ?j" using seg_above[OF assms(2)] True by simp
    have "(x - xp ! (?j - 1)) / (xp ! ?j - xp ! (?j - 1)) < (x' - xp ! (?j - 1)) / (xp ! ?j - xp ! (?j - 1))"
      using lo hi assms(3) by (intro divide_strict_right_mono) simp_all
    then show ?thesis using True assms(1) jlt by (simp add: interp_index[OF ne])
  next
    case False
    then have "real ?j \<le> real (?j' - 1)" using jj by simp
    then show ?thesis
      using interp_bounds(2)[OF assms(1) jlt] interp_bounds(1)[OF j'0 assms(2)] by linarith
  qed
qed

lemma sum_list_slice_replicate:
  assumes "0 \<le> a" "a \<le> e" "e < int n"
  shows "sum_list (py_slice (replicate n c) a (e + 1)) = real_of_int (e + 1 - a) * (c :: real)"
proof -
  have "py_slice (replicate n c) a (e + 1) = replicate (nat (e + 1 - a)) c"
    using assms by (simp add: py_slice_in min_def) 
  then show ?thesis using assms by (simp add: sum_list_replicate)
qed

lemma value_replicate:
  assumes "0 \<le> istart b" "istart b \<le> istop b" "istop b < int n"
    and "frac1 b = rstart b - real_of_int (istart b)"
    and "frac2 b = 1 - (rstop b - real_of_int (istop b))"
    and "rstart b < rstop b"
  shows "rebin1d_value (replicate n c) b = Inr (Fin c)"
proof -
  have ia: "py_get (replicate n c) (istart b) = Inr c"
    using assms(1,2,3) py_get_in[of "istart b" "replicate n c"] by simp
  have ie: "py_get (replicate n c) (istop b) = Inr c"
    using assms(1,2,3) py_get_in[of "istop b" "replicate n c"] by simp
  have w: "rstop b - rstart b \<noteq> 0" using assms(6) by simp
  show ?thesis
  proof (cases "istart b = istop b")
    case True
    have v: "rebin1d_value (replicate n c) b
               = Inr (np_div ((1 - frac1 b - frac2 b) * c) (rstop b - rstart b))"
      using True by (simp add: rebin1d_value_def ia ie)
    have q: "1 - frac1 b - frac2 b = rstop b - rstart b"
      using True assms(4,5) by simp
    show ?thesis unfolding v q np_div_def using w by simp
  next
    case False
    have v: "rebin1d_value (replicate n c) b
               = Inr (np_div (sum_list (py_slice (replicate n c) (istart b) (istop b + 1))
                                - frac1 b * c - frac2 b * c) (rstop b - rstart b))"
      using False by (simp add: rebin1d_value_def ia ie)
    have m: "real_of_int (istop b + 1 - istart b) - frac1 b - frac2 b = rstop b - rstart b"
      using assms(4,5) by simp
    have "sum_list (py_slice (replicate n c) (istart b) (istop b + 1)) - frac1 b * c - frac2 b * c
            = (real_of_int (istop b + 1 - istart b) - frac1 b - frac2 b) * c"
      unfolding sum_list_slice_replicate[OF assms(1,2,3), of c] by (simp only: left_diff_distrib)
    then have q: "sum_list (py_slice (replicate n c) (istart b) (istop b + 1))
                    - frac1 b * c - frac2 b * c = (rstop b - rstart b) * c"
      unfolding m .
    show ?thesis unfolding v q np_div_def using w by simp
  qed
qed

lemma own_grid_facts:
  assumes "sorted_wrt (<) xin" "2 \<le> length xin"
  shows "xin ! 0 < xin ! 1" and "valid_grids xin xin" and "in0_of xin xin = 0"
proof -
  show d: "xin ! 0 < xin ! 1" using sorted_wrt_nth_less[OF assms(1), of 0 1] assms(2) by simp
  have ne: "xin \<noteq> []" using assms(2) by auto
  have "xin ! 0 < xin ! (length xin - 1)"
    using assms(2) by (intro sorted_wrt_nth_less[OF assms(1)]) simp_all
  then show "valid_grids xin xin" using assms ne by (simp add: valid_grids_def last_conv_nth)
  obtain a b rest where x: "xin = a # b # rest"
    using assms(2) by (cases xin; cases "tl xin") auto
  then have "seg (xin ! 0) xin = 1" using d by (simp add: seg_Cons)
  then show "in0_of xin xin = 0" by (simp add: in0_of_def)
qed

lemma own_grid_spacings:
  assumes "sorted_wrt (<) xin" "2 \<le> length xin"
  shows "spacings xin xin = Inr (xin ! 1 - xin ! 0, xin ! 1 - xin ! 0)"
proof -
  have v: "xin ! 0 < last xin" using own_grid_facts(2)[OF assms] by (simp add: valid_grids_def)
  show ?thesis using spacings_ok(2)[OF assms(2) assms(2) v] own_grid_facts(3)[OF assms] by simp
qed

lemma own_grid_edges_strict:
  assumes "sorted_wrt (<) xin" "2 \<le> length xin" "k + 1 < length xin"
  defines "d \<equiv> xin ! 1 - xin ! 0"
  shows "edges xin xin d ! k < edges xin xin d ! (k + 1)"
proof -
  let ?n = "length xin" and ?r = "np_range (length xin)"
  have ne: "xin \<noteq> []" using assms(2) by auto
  have dpos: "0 < d" using own_grid_facts(1)[OF assms(1,2)] by (simp add: d_def)
  have ek: "edges xin xin d ! k = interp_at (xin ! k - d * 0.5) xin ?r"
    and ek1: "edges xin xin d ! (k + 1) = interp_at (xin ! (k + 1) - d * 0.5) xin ?r"
    using assms(3) by (simp_all add: edges_def)
  have next_lt: "xin ! k < xin ! (k + 1)"
    using assms(3) by (intro sorted_wrt_nth_less[OF assms(1)]) simp_all
  have top: "seg (xin ! (k + 1) - d * 0.5) xin < ?n"
    using assms(3) dpos by (intro seg_not_full[of "xin ! (k + 1)"]) simp_all
  show ?thesis
  proof (cases k)
    case 0
    have "seg (xin ! 0 - d * 0.5) xin = 0" using dpos ne by (cases xin) (simp_all add: seg_Cons)
    then have z: "edges xin xin d ! k = 0" using ek 0 by (simp add: interp_index[OF ne])
    have p: "0 < seg (xin ! 0) xin" using ne by (intro seg_pos) simp_all
    have mid: "xin ! 0 < xin ! 1 - d * 0.5" using dpos by (simp add: d_def field_simps)
    have "interp_at (xin ! 0) xin ?r < interp_at (xin ! 1 - d * 0.5) xin ?r"
      using top 0 mid by (intro interp_strict[OF p]) simp_all
    then show ?thesis using z ek1 0 interp_range(1)[OF ne, of "xin ! 0"] by simp
  next
    case (Suc m)
    have "xin ! 1 \<le> xin ! k"
      using assms(3) Suc sorted_nth_mono[OF strict_sorted_imp_sorted[OF assms(1)], of 1 k] by simp
    then have "xin ! 0 \<le> xin ! k - d * 0.5" using dpos by (simp add: d_def field_simps)
    then have p: "0 < seg (xin ! k - d * 0.5) xin" using ne by (intro seg_pos)
    show ?thesis unfolding ek ek1 using next_lt by (intro interp_strict[OF p top]) simp
  qed
qed

lemma own_grid_constant:
  assumes "sorted_wrt (<) xin" "2 \<le> length xin"
  defines "d \<equiv> xin ! 1 - xin ! 0"
  shows "rebin1d_box xin xin (replicate (length xin) c) d d = Inr (replicate (length xin) (Fin c))"
proof -
  let ?n = "length xin" and ?e = "edges xin xin d"
  have so: "sorted xin" using assms(1) by (rule strict_sorted_imp_sorted)
  have ne: "xin \<noteq> []" using assms(2) by auto
  have dpos: "d \<noteq> 0" using own_grid_facts(1)[OF assms(1,2)] by (simp add: d_def)
  have "mapE (\<lambda>k. bindE (box_bin ?e ?n ?n k) (rebin1d_value (replicate ?n c))) [0..<?n]
          = Inr (map (\<lambda>k. Fin c) [0..<?n])"
  proof (rule mapE_map)
    fix k assume "k \<in> set [0..<?n]"
    then have k: "k < ?n" by simp
    let ?b = "bin_at ?e ?n ?n k"
    have bb: "box_bin ?e ?n ?n k = Inr ?b" using box_bin_ok[of ?e ?n k ?n] assms(2) k by simp
    note bd = bin_bounds[OF so ne assms(2) k, of d]
    have w: "rstart ?b < rstop ?b"
    proof (cases "k + 1 < ?n")
      case True
      then show ?thesis
        using own_grid_edges_strict[OF assms(1,2) True] by (simp add: bin_at_sel d_def)
    next
      case False
      then have k1: "k - 1 + 1 < ?n" "k - 1 + 1 = k" using k assms(2) by simp_all
      have "?e ! (k - 1) < ?e ! k"
        using own_grid_edges_strict[OF assms(1,2) k1(1)] k1(2) by (simp add: d_def)
      then show ?thesis using False by (simp add: bin_at_sel)
    qed
    have "rebin1d_value (replicate ?n c) ?b = Inr (Fin c)"
      using bd(3,4,5) w by (intro value_replicate) (simp_all add: bin_at_sel(5,6))
    then show "bindE (box_bin ?e ?n ?n k) (rebin1d_value (replicate ?n c)) = Inr (Fin c)"
      by (simp add: bb)
  qed
  then show ?thesis
    using dpos by (simp add: rebin1d_box_def np_interp_edges_half[OF ne] map_replicate_const)
qed

text \<open>
  Claim C2, amended: for a strictly increasing grid \<open>xin\<close> of length at least two,
  \<^verbatim>\<open>rebin1d(xin, xin, yin)\<close> always takes the box-integration regime (the two spacings
  are equal and the test for the interpolation regime is strict), and it returns a
  constant series of the grid's length unchanged (in the exact arithmetic of this model).
  Nothing more is stated for a series that is not constant.
\<close>

theorem rebin1d_own_grid:
  assumes "sorted_wrt (<) xin" "2 \<le> length xin"
  shows "rebin1d xin xin yin = rebin1d_box xin xin yin (xin ! 1 - xin ! 0) (xin ! 1 - xin ! 0)
       \<and> rebin1d xin xin (replicate (length xin) c) = Inr (map Fin (replicate (length xin) c))"
proof -
  have r: "rebin1d xin xin ys = rebin1d_box xin xin ys (xin ! 1 - xin ! 0) (xin ! 1 - xin ! 0)"
    for ys using own_grid_spacings[OF assms] by (simp add: rebin1d_def)
  show ?thesis using r own_grid_constant[OF assms, of c] by simp
qed

text \<open>
  Claim C2, as stated: rebinning a series onto its own grid returns the values unchanged.
  On the grid \<open>[0, 1, 2]\<close> the series \<open>[1, 2, 3]\<close> comes back as \<open>[1, 3/2, 5/2]\<close>, and on
  the grid \<open>[0, 1]\<close> the series \<open>[1, 3]\<close> comes back as \<open>[1, 1]\<close>: the bin edges
  \<open>xout - dx_out/2\<close> are placed with \<open>xin[k]\<close> at index \<open>k\<close>, while the sum takes input
  pixel \<open>k\<close> to cover the indices from \<open>k\<close> to \<open>k + 1\<close>.
\<close>

theorem rebin1d_own_grid_counterexample:
  "sorted_wrt (<) [0, 1, 2 :: real] \<and> 2 \<le> length [0, 1, 2 :: real]
   \<and> rebin1d [0, 1, 2] [0, 1, 2] [1, 2, 3] = Inr [Fin 1, Fin (3/2), Fin (5/2)]
   \<and> rebin1d [0, 1, 2] [0, 1, 2] [1, 2, 3] \<noteq> Inr (map Fin [1, 2, 3])
   \<and> rebin1d [0, 1] [0, 1] [1, 3] = Inr [Fin 1, Fin 1]
   \<and> rebin1d [0, 1] [0, 1] [1, 3] \<noteq> Inr (map Fin [1, 3])"
proof -
  have "rebin1d [0, 1, 2] [0, 1, 2] [1, 2, 3] = Inr [Fin 1, Fin (3/2), Fin (5/2)]" by code_simp
  moreover have "rebin1d [0, 1] [0, 1] [1, 3] = Inr [Fin 1, Fin 1]" by code_simp
  ultimately show ?thesis by simp
qed

theorem rebin1d_own_grid_witness:
  "sorted_wrt (<) [0, 1, 3 :: real] \<and> 2 \<le> length [0, 1, 3 :: real]
   \<and> rebin1d [0, 1, 3] [0, 1, 3] [7, 7, 7] = Inr [Fin 7, Fin 7, Fin 7]
   \<and> rebin1d [0, 1, 3] [0, 1, 3] [1, 2, 4] = rebin1d_box [0, 1, 3] [0, 1, 3] [1, 2, 4] 1 1"
proof -
  have a: "sorted_wrt (<) [0, 1, 3 :: real]" "2 \<le> length [0, 1, 3 :: real]" by simp_all
  show ?thesis
    using rebin1d_own_grid[OF a, of "[1, 2, 4]" 7] rebin1d_own_grid[OF a, of "[7, 7, 7]" 7] a
    by (simp add: numeral_3_eq_3)
qed

section \<open>Shape of the planar rebinner's result\<close>

lemma rect_nth: "rect a \<Longrightarrow> k < length a \<Longrightarrow> length (a ! k) = ncols a"
  by (simp add: rect_def)

lemma frebin_line_shape:
  assumes "frebin_line a n box last_i i = Inr row" "rect a" "n = ncols a"
  shows "length row = n"
proof -
  have "length r = n" if "py_get a k = Inr r" for k r
  proof -
    from that have "r \<in> set a" by (auto simp: py_get_def split: if_splits)
    then show ?thesis using assms(2,3) by (simp add: rect_def)
  qed
  then show ?thesis using assms(1)
    by (auto simp: frebin_line_def Let_def bindE_Inr split: if_splits)
qed

lemma frebin_line_ok:
  assumes "a \<noteq> []" "0 < s" "i < nat s"
  shows "\<exists>row. frebin_line a n (real (length a) / real_of_int s) (int (length a) - 1) i = Inr row"
proof -
  let ?m = "length a"
  let ?box = "real ?m / real_of_int s"
  let ?rs = "real i * ?box"
  let ?rt = "?rs + ?box"
  let ?it = "if py_int ?rt > int ?m - 1 then int ?m - 1 else py_int ?rt"
  have m: "0 < ?m" using assms(1) by simp
  have b0: "0 \<le> ?box" using assms(2) by simp
  have rs0: "0 \<le> ?rs" using b0 by (intro mult_nonneg_nonneg) simp_all
  have "real i < real_of_int s" using assms(3) by linarith
  then have "real i * real ?m < real_of_int s * real ?m" using m by simp
  then have rsm: "?rs < real ?m" using assms(2) by (simp add: field_simps)
  have is0: "0 \<le> py_int ?rs" using rs0 by (simp add: py_int_def)
  have "\<lfloor>?rs\<rfloor> < int ?m" using rsm by (simp add: floor_less_iff)
  then have ism: "py_int ?rs < int ?m" using rs0 by (simp add: py_int_def)
  have "\<lfloor>?rs\<rfloor> \<le> \<lfloor>?rt\<rfloor>" using b0 by (intro floor_mono) simp
  then have "py_int ?rs \<le> py_int ?rt" using rs0 b0 by (simp add: py_int_def)
  then have it: "0 \<le> ?it" "?it < int ?m" using is0 ism by auto
  have ga: "py_get a (py_int ?rs) = Inr (a ! nat (py_int ?rs))"
    using is0 ism by (rule py_get_in)
  have ge: "py_get a ?it = Inr (a ! nat ?it)"
    using it by (rule py_get_in)
  show ?thesis
    unfolding frebin_line_def Let_def using ga ge by (auto simp: bindE_Inr)
qed

lemma frebin_line_nil: "frebin_line [] n box last_i i = Inl IndexError"
  by (simp add: frebin_line_def Let_def)

lemma frebin_pass_nil: "0 < k \<Longrightarrow> mapE (frebin_line [] n box last_i) [0..<k] = Inl IndexError"
  by (intro mapE_first_Inl) (simp_all add: frebin_line_nil)

lemma frebin_pass_ok:
  assumes "rect a" "a \<noteq> []" "0 < s"
  shows "\<exists>t. mapE (frebin_line a (ncols a) (real (length a) / real_of_int s) (int (length a) - 1))
               [0..<nat s] = Inr t
             \<and> length t = nat s \<and> (\<forall>row \<in> set t. length row = ncols a)"
proof -
  let ?f = "frebin_line a (ncols a) (real (length a) / real_of_int s) (int (length a) - 1)"
  have "\<exists>t. mapE ?f [0..<nat s] = Inr t"
    using frebin_line_ok[OF assms(2,3)] by (intro mapE_ok) simp
  then obtain t where t: "mapE ?f [0..<nat s] = Inr t" by blast
  have len: "length t = nat s" using mapE_length[OF t] by simp
  have "length row = ncols a" if "row \<in> set t" for row
  proof -
    from that obtain i where i: "i < nat s" "t ! i = row" using len by (auto simp: in_set_conv_nth)
    have "?f i = Inr row" using mapE_nth[OF t, of i] i by simp
    then show ?thesis using assms(1) by (rule frebin_line_shape) simp
  qed
  then show ?thesis using t len by blast
qed

lemma np_transpose_shape:
  "length (np_transpose n t) = n" "\<forall>row \<in> set (np_transpose n t). length row = length t"
  by (auto simp: np_transpose_def)

lemma np_transpose_rect:
  assumes "0 < n"
  shows "np_transpose n t \<noteq> []" "rect (np_transpose n t)" "ncols (np_transpose n t) = length t"
proof -
  have l: "length (np_transpose n t) = n" by (rule np_transpose_shape)
  then show ne: "np_transpose n t \<noteq> []" using assms by auto
  then obtain r rs where c: "np_transpose n t = r # rs" by (cases "np_transpose n t") auto
  then have "r \<in> set (np_transpose n t)" by simp
  then have "length r = length t" using np_transpose_shape(2) by blast
  then show nc: "ncols (np_transpose n t) = length t" using c by (simp add: ncols_def)
  show "rect (np_transpose n t)" using np_transpose_shape(2)[of n t] nc by (simp add: rect_def)
qed

text \<open>
  Claim C3, amended: for every 2-D array and every requested shape \<open>(outCols, outRows)\<close>
  with positive dimensions, an array returned by \<^verbatim>\<open>frebin2d\<close> has \<open>outRows\<close> rows of
  \<open>outCols\<close> columns, so that its numpy shape is \<open>(outRows, outCols)\<close>: the requested
  extents in the source's "(x, y)" format, the reverse of what \<^verbatim>\<open>result.shape\<close> reports
  (line 187 allocates \<open>(shape[0], shape[1])\<close> and line 209 transposes it). The function
  returns for every array with at least one row and one column; for an array without
  rows or without columns it raises IndexError.
\<close>

theorem frebin2d_shape:
  assumes "rect a" "0 < sx" "0 < sy"
  shows "(\<forall>r. frebin2d a (sx, sy) = Inr r \<longrightarrow>
            np_shape r = (sy, sx) \<and> length r = nat sy \<and> (\<forall>row \<in> set r. length row = nat sx))
       \<and> (a \<noteq> [] \<and> ncols a \<noteq> 0 \<longrightarrow> (\<exists>r. frebin2d a (sx, sy) = Inr r))
       \<and> (a = [] \<or> ncols a = 0 \<longrightarrow> frebin2d a (sx, sy) = Inl IndexError)"
proof -
  have shape: "np_shape r = (sy, sx) \<and> length r = nat sy \<and> (\<forall>row \<in> set r. length row = nat sx)"
    if l: "length r = nat sy" and rows: "\<forall>row \<in> set r. length row = nat sx"
    for r :: "npfloat list list"
  proof -
    from l assms(3) obtain r0 rs where r: "r = r0 # rs" by (cases r) auto
    then have "length r0 = nat sx" using rows by simp
    then have "ncols r = nat sx" using r by (simp add: ncols_def)
    then show ?thesis using l rows assms(2,3) by (simp add: np_shape_def)
  qed
  show ?thesis
  proof (cases "a = []")
    case True
    have "mapE (frebin_line [] 0 0 (- 1)) [0..<nat sy] = Inl IndexError"
      using assms(3) by (intro frebin_pass_nil) simp
    then show ?thesis using True assms(2,3) by (simp add: frebin2d_def Let_def ncols_def)
  next
    case False
    let ?x = "ncols a" and ?y = "length a"
    obtain t where t: "mapE (frebin_line a ?x (real ?y / real_of_int sy) (int ?y - 1)) [0..<nat sy] = Inr t"
      and tl: "length t = nat sy" and tr: "\<forall>row \<in> set t. length row = ?x"
      using frebin_pass_ok[OF assms(1) False assms(3)] by blast
    let ?t' = "np_transpose ?x t"
    have unf: "frebin2d a (sx, sy) =
        bindE (mapE (frebin_line ?t' (nat sy) (real ?x / real_of_int sx) (int ?x - 1)) [0..<nat sx])
          (\<lambda>result. Inr (map (map (\<lambda>v. np_div v (real ?x / real_of_int sx * (real ?y / real_of_int sy))))
                            (np_transpose (nat sy) result)))"
      using assms(2,3) t by (simp add: frebin2d_def Let_def)
    show ?thesis
    proof (cases "?x = 0")
      case True
      then have "?t' = []" by (simp add: np_transpose_def)
      then have "mapE (frebin_line ?t' (nat sy) (real ?x / real_of_int sx) (int ?x - 1)) [0..<nat sx]
                   = Inl IndexError"
        using assms(2) frebin_pass_nil[of "nat sx"] by simp
      then show ?thesis using True unf by simp
    next
      case x0: False
      then have xp: "0 < ?x" by simp
      note tp = np_transpose_rect[OF xp, of t]
      have lt': "length ?t' = ?x" by (rule np_transpose_shape)
      obtain r where r: "mapE (frebin_line ?t' (nat sy) (real ?x / real_of_int sx) (int ?x - 1))
                            [0..<nat sx] = Inr r"
        and rl: "length r = nat sx" and rr: "\<forall>row \<in> set r. length row = nat sy"
        using frebin_pass_ok[OF tp(2) tp(1) assms(2)] tp(3) tl lt' by auto
      let ?out = "map (map (\<lambda>v. np_div v (real ?x / real_of_int sx * (real ?y / real_of_int sy))))
                    (np_transpose (nat sy) r)"
      have out: "frebin2d a (sx, sy) = Inr ?out" using unf r by simp
      have "length ?out = nat sy" by (simp add: np_transpose_shape)
      moreover have "\<forall>row \<in> set ?out. length row = nat sx"
        using np_transpose_shape(2)[of "nat sy" r] rl by auto
      ultimately have "np_shape ?out = (sy, sx) \<and> length ?out = nat sy
          \<and> (\<forall>row \<in> set ?out. length row = nat sx)"
        by (rule shape)
      then show ?thesis using out False x0 by simp
    qed
  qed
qed

text \<open>
  Claim C3, as stated: the returned array has shape \<open>(outCols, outRows)\<close>. A 2 x 4 array
  resized to the request \<open>(2, 1)\<close> comes back as one row of two columns, of numpy shape
  \<open>(1, 2)\<close> and not \<open>(2, 1)\<close>.
\<close>

theorem frebin2d_shape_counterexample:
  "frebin2d [[1, 2, 3, 4], [5, 6, 7, 8]] (2, 1) = Inr [[Fin (7/2), Fin (11/2)]]
   \<and> np_shape [[Fin (7/2), Fin (11/2)]] = (1, 2)
   \<and> np_shape [[Fin (7/2), Fin (11/2)]] \<noteq> (2, 1)"
proof -
  have "frebin2d [[1, 2, 3, 4], [5, 6, 7, 8]] (2, 1) = Inr [[Fin (7/2), Fin (11/2)]]" by code_simp
  moreover have "np_shape [[Fin (7/2), Fin (11/2)]] = (1, 2)" by (simp add: np_shape_def ncols_def)
  ultimately show ?thesis by simp
qed

theorem frebin2d_shape_witness:
  "rect [[1, 2, 3, 4], [5, 6, 7, 8 :: real]] \<and> (0::int) < 2 \<and> (0::int) < 1
   \<and> frebin2d [[1, 2, 3, 4], [5, 6, 7, 8]] (2, 1) = Inr [[Fin (7/2), Fin (11/2)]]
   \<and> np_shape [[Fin (7/2), Fin (11/2)]] = (1, 2) \<and> length [[Fin (7/2), Fin (11/2)]] = nat 1
   \<and> length ([[Fin (7/2), Fin (11/2)]] ! 0) = nat 2
   \<and> rect ([] :: real list list) \<and> frebin2d [] (2, 1) = Inl IndexError"
proof -
  have a: "rect [[1, 2, 3, 4], [5, 6, 7, 8 :: real]]" "rect ([] :: real list list)"
    "(0::int) < 2" "(0::int) < 1"
    by (simp_all add: rect_def ncols_def)
  have v: "frebin2d [[1, 2, 3, 4], [5, 6, 7, 8]] (2, 1) = Inr [[Fin (7/2), Fin (11/2)]]" by code_simp
  have "np_shape [[Fin (7/2), Fin (11/2)]] = (1, 2)"
    using frebin2d_shape[OF a(1,3,4)] v by simp
  then show ?thesis
    using frebin2d_shape[OF a(2,3,4)] a v by simp
qed

section \<open>Resizing a plane to its own extents\<close>

lemma py_slice_pair:
  assumes "i + 1 < length a"
  shows "py_slice a (int i) (int i + 1 + 1) = [a ! i, a ! (i + 1)]"
proof -
  have "py_slice a (int i) (int i + 1 + 1) = take 2 (drop i a)"
    using assms by (simp add: py_slice_def Let_def min_def)
  also have "\<dots> = [a ! i, a ! (i + 1)]"
    using assms by (simp add: numeral_2_eq_2 take_Suc_conv_app_nth)
  finally show ?thesis .
qed

lemma py_slice_pair_norm:
  "i + 1 < length a \<Longrightarrow> py_slice a (int i) (2 + int i) = [a ! i, a ! (i + 1)]"
  using py_slice_pair[of i a] by (simp add: add.commute)

lemma frebin_line_unit:
  assumes "rect a" "i < length a"
  shows "frebin_line a (ncols a) 1 (int (length a) - 1) i = Inr (a ! i)"
proof -
  have pi: "py_int (real i) = int i" "py_int (real i + 1) = int i + 1"
    by (simp_all add: py_int_def)
  have ga: "py_get a (int i) = Inr (a ! i)" using assms(2) by (rule py_get_nat)
  have len: "length (a ! i) = ncols a" using assms by (rule rect_nth)
  show ?thesis
  proof (cases "i + 1 < length a")
    case True
    have gb: "py_get a (int i + 1) = Inr (a ! (i + 1))"
      using py_get_nat[OF True] by (simp add: add.commute)
    have "map (\<lambda>j. a ! i ! j) [0..<ncols a] = a ! i"
      using len by (metis map_nth)
    then show ?thesis using True
      by (simp add: frebin_line_def Let_def pi ga gb py_slice_pair_norm)
  next
    case False
    then have e: "int (length a) - 1 = int i" using assms(2) by simp
    have one: "map ((*) (1::real)) (a ! i) = a ! i" by (rule map_idI) simp
    show ?thesis
      unfolding frebin_line_def Let_def e by (simp add: pi ga one)
  qed
qed

lemma frebin_pass_unit:
  assumes "rect a"
  shows "mapE (frebin_line a (ncols a) 1 (int (length a) - 1)) [0..<length a] = Inr a"
proof -
  have "mapE (frebin_line a (ncols a) 1 (int (length a) - 1)) [0..<length a]
          = Inr (map (\<lambda>i. a ! i) [0..<length a])"
    using frebin_line_unit[OF assms] by (intro mapE_map) simp
  then show ?thesis by (simp add: map_nth)
qed

lemma np_transpose_twice:
  assumes "rect a"
  shows "np_transpose (length a) (np_transpose (ncols a) a) = a"
proof (rule nth_equalityI)
  show "length (np_transpose (length a) (np_transpose (ncols a) a)) = length a"
    by (simp add: np_transpose_def)
next
  fix i assume "i < length (np_transpose (length a) (np_transpose (ncols a) a))"
  then have i: "i < length a" by (simp add: np_transpose_def)
  have len: "length (a ! i) = ncols a" using assms i by (rule rect_nth)
  have "np_transpose (length a) (np_transpose (ncols a) a) ! i
          = map (\<lambda>j. a ! i ! j) [0..<ncols a]"
    using i by (simp add: np_transpose_def o_def)
  also have "\<dots> = a ! i" using len by (metis map_nth)
  finally show "np_transpose (length a) (np_transpose (ncols a) a) ! i = a ! i" .
qed

text \<open>
  Claim C8, amended: for every 2-D array with at least one row and one column,
  \<^verbatim>\<open>frebin2d\<close> with the array's own extents in the function's "(x, y)" order, that is
  \<open>(columns, rows)\<close>, the reverse of \<^verbatim>\<open>array.shape\<close>, returns the array unchanged (in
  exact arithmetic); for a square array this is \<^verbatim>\<open>frebin2d(array, array.shape)\<close>.
\<close>

theorem frebin2d_own_shape:
  assumes "rect a" "a \<noteq> []" "ncols a \<noteq> 0"
  shows "frebin2d a (int (ncols a), int (length a)) = Inr (map (map Fin) a)
       \<and> (length a = ncols a \<longrightarrow> frebin2d a (np_shape a) = Inr (map (map Fin) a))"
proof -
  let ?x = "ncols a" and ?y = "length a"
  let ?t = "np_transpose ?x a"
  have xp: "0 < ?x" and yp: "0 < ?y" using assms(2,3) by simp_all
  note tp = np_transpose_rect[OF xp, of a]
  have lt: "length ?t = ?x" by (rule np_transpose_shape)
  have p1: "mapE (frebin_line a ?x 1 (int ?y - 1)) [0..<?y] = Inr a"
    using frebin_pass_unit[OF assms(1)] .
  have p2: "mapE (frebin_line ?t ?y 1 (int ?x - 1)) [0..<?x] = Inr ?t"
    using frebin_pass_unit[OF tp(2)] tp(3) lt by simp
  have "map (map (\<lambda>v. np_div v 1)) a = map (map Fin) a" by (simp add: np_div_def)
  then have "frebin2d a (int ?x, int ?y) = Inr (map (map Fin) a)"
    using xp yp p1 p2 np_transpose_twice[OF assms(1)] by (simp add: frebin2d_def Let_def)
  then show ?thesis by (auto simp: np_shape_def)
qed

text \<open>
  Claim C8, as stated: \<^verbatim>\<open>frebin2d(array, array.shape)\<close> returns the array. The 1 x 2 array
  \<open>[[1, 2]]\<close> has \<^verbatim>\<open>array.shape = (1, 2)\<close>, which \<^verbatim>\<open>frebin2d\<close> reads as one column and
  two rows: the result is the 2 x 1 array \<open>[[3/2], [3/2]]\<close>. An array with a zero extent
  makes the box ratio divide by zero.
\<close>

theorem frebin2d_own_shape_counterexample:
  "frebin2d [[1, 2]] (np_shape [[1, 2 :: real]]) = Inr [[Fin (3/2)], [Fin (3/2)]]
   \<and> frebin2d [[1, 2]] (np_shape [[1, 2 :: real]]) \<noteq> Inr (map (map Fin) [[1, 2]])
   \<and> frebin2d [[], []] (np_shape [[], [] :: real list]) = Inl ZeroDivisionError"
proof -
  have "frebin2d [[1, 2]] (np_shape [[1, 2 :: real]]) = Inr [[Fin (3/2)], [Fin (3/2)]]"
    by code_simp
  moreover have "frebin2d [[], []] (np_shape [[], [] :: real list]) = Inl ZeroDivisionError"
    by code_simp
  ultimately show ?thesis by simp
qed

theorem frebin2d_own_shape_witness:
  "rect [[1, 2, 3], [4, 5, 6 :: real]]
   \<and> frebin2d [[1, 2, 3], [4, 5, 6]] (3, 2) = Inr [[Fin 1, Fin 2, Fin 3], [Fin 4, Fin 5, Fin 6]]
   \<and> rect [[1, 2], [3, 4 :: real]]
   \<and> frebin2d [[1, 2], [3, 4]] (np_shape [[1, 2], [3, 4 :: real]])
       = Inr [[Fin 1, Fin 2], [Fin 3, Fin 4]]"
proof -
  have a: "rect [[1, 2, 3], [4, 5, 6 :: real]]" "[[1, 2, 3], [4, 5, 6 :: real]] \<noteq> []"
    "ncols [[1, 2, 3], [4, 5, 6 :: real]] \<noteq> 0"
    and b: "rect [[1, 2], [3, 4 :: real]]" "[[1, 2], [3, 4 :: real]] \<noteq> []"
    "ncols [[1, 2], [3, 4 :: real]] \<noteq> 0"
    by (simp_all add: rect_def ncols_def)
  show ?thesis
    using frebin2d_own_shape[OF a] frebin2d_own_shape[OF b] a(1) b(1)
    by (simp add: ncols_def)
qed

section \<open>Inputs are not mutated and results are fresh\<close>

lemma frame_refl [simp]: "frame h h"
  by (simp add: frame_def)

lemma frame_trans: "frame h h1 \<Longrightarrow> frame h1 h2 \<Longrightarrow> frame h h2"
  by (auto simp: frame_def)

lemma frame_alloc: "alloc v h = (a, h') \<Longrightarrow> frame h h' \<and> a = next_addr h \<and> next_addr h' = Suc a"
  by (auto simp: alloc_def frame_def)

lemma only_at_refl [simp]: "only_at t h h"
  by (simp add: only_at_def)

lemma only_at_trans: "only_at t h h1 \<Longrightarrow> only_at t h1 h2 \<Longrightarrow> only_at t h h2"
  by (auto simp: only_at_def)

lemma only_at_frame: "only_at t h h' \<Longrightarrow> next_addr h0 \<le> t \<Longrightarrow> frame h0 h \<Longrightarrow> frame h0 h'"
  by (auto simp: only_at_def frame_def)

lemma only_at_put:
  "only_at t h (put_elem t i v h)" "only_at t h (put_row t i r h)"
  "only_at t h (put_plane t i p h)" "only_at t h (put_spectrum t j i ys h)"
  by (auto simp: only_at_def put_elem_def put_row_def put_plane_def put_spectrum_def
      split: option.splits ndarray.splits)

lemma for_loop_only_at:
  assumes "\<And>i h h' r. body i h = (h', r) \<Longrightarrow> only_at t h h'"
  shows "for_loop body is h = (h', r) \<Longrightarrow> only_at t h h'"
proof (induction "is" arbitrary: h)
  case Nil
  then show ?case by simp
next
  case (Cons i "is")
  obtain h1 r1 where b: "body i h = (h1, r1)" by (cases "body i h")
  have 1: "only_at t h h1" using assms b by blast
  show ?case
  proof (cases r1)
    case (Inl e)
    then show ?thesis using Cons.prems b 1 by simp
  next
    case (Inr u)
    then have "for_loop body is h1 = (h', r)" using Cons.prems b by simp
    then show ?thesis using Cons.IH 1 only_at_trans by blast
  qed
qed

lemma step_only_at:
  "rebin1d_step t q ay n_out n_in i h = (h', r) \<Longrightarrow> only_at t h h'"
  "cube_interp_step t ac xout xin i j h = (h', r) \<Longrightarrow> only_at t h h'"
  "cube_box_step t q ac n_out n_in i h = (h', r) \<Longrightarrow> only_at t h h'"
  "frebin_step1 t aa x ybox y1 i h = (h', r) \<Longrightarrow> only_at t h h'"
  "frebin_step2 t t' x n xbox x1 i h = (h', r) \<Longrightarrow> only_at t h h'"
  by (auto simp: rebin1d_step_def cube_interp_step_def cube_box_step_def frebin_step1_def
      frebin_step2_def only_at_put split: sum.splits)

lemma loops_only_at:
  "for_loop (rebin1d_step t q ay n_out n_in) is h = (h', r) \<Longrightarrow> only_at t h h'"
  "for_loop (\<lambda>i. for_loop (cube_interp_step t ac xout xin i) js) is h = (h', r) \<Longrightarrow> only_at t h h'"
  "for_loop (cube_box_step t q ac n_out n_in) is h = (h', r) \<Longrightarrow> only_at t h h'"
  "for_loop (frebin_step1 t aa x ybox y1) is h = (h', r) \<Longrightarrow> only_at t h h'"
  "for_loop (frebin_step2 t t' x n xbox x1) is h = (h', r) \<Longrightarrow> only_at t h h'"
proof -
  show "for_loop (rebin1d_step t q ay n_out n_in) is h = (h', r) \<Longrightarrow> only_at t h h'"
    by (rule for_loop_only_at[where body = "rebin1d_step t q ay n_out n_in"])
       (rule step_only_at(1))
  have inner: "only_at t g g'"
    if "for_loop (cube_interp_step t ac xout xin i) js g = (g', r')" for i g g' r'
    using that
    by (rule for_loop_only_at[where body = "cube_interp_step t ac xout xin i", rotated])
       (rule step_only_at(2))
  show "for_loop (\<lambda>i. for_loop (cube_interp_step t ac xout xin i) js) is h = (h', r)
          \<Longrightarrow> only_at t h h'"
    by (rule for_loop_only_at[where body = "\<lambda>i. for_loop (cube_interp_step t ac xout xin i) js"])
       (rule inner)
  show "for_loop (cube_box_step t q ac n_out n_in) is h = (h', r) \<Longrightarrow> only_at t h h'"
    by (rule for_loop_only_at[where body = "cube_box_step t q ac n_out n_in"])
       (rule step_only_at(3))
  show "for_loop (frebin_step1 t aa x ybox y1) is h = (h', r) \<Longrightarrow> only_at t h h'"
    by (rule for_loop_only_at[where body = "frebin_step1 t aa x ybox y1"])
       (rule step_only_at(4))
  show "for_loop (frebin_step2 t t' x n xbox x1) is h = (h', r) \<Longrightarrow> only_at t h h'"
    by (rule for_loop_only_at[where body = "frebin_step2 t t' x n xbox x1"])
       (rule step_only_at(5))
qed

lemma loop_frame:
  assumes "only_at t h1 h2" "frame h h1" "next_addr h \<le> t"
  shows "frame h h2 \<and> next_addr h2 = next_addr h1"
  using only_at_frame[OF assms(1,3,2)] assms(1) by (simp add: only_at_def)

lemma rebin1d_box_st_frame:
  assumes "rebin1d_box_st ay xout xin dx_in dx_out h = (h', res)"
  shows "fresh_result h h' res"
proof -
  obtain t h1 where a1: "alloc (VecF (replicate (length xout) (Fin 0))) h = (t, h1)"
    by (cases "alloc (VecF (replicate (length xout) (Fin 0))) h")
  note f1 = frame_alloc[OF a1]
  show ?thesis
  proof (cases "dx_in = 0")
    case True
    then show ?thesis using assms a1 f1 by (auto simp: rebin1d_box_st_def fresh_result_def)
  next
    case dx: False
    show ?thesis
    proof (cases "np_interp (map (\<lambda>x. x - dx_out * 0.5) xout) xin (np_range (length xin))")
      case (Inl e)
      then show ?thesis using assms a1 f1 dx by (auto simp: rebin1d_box_st_def fresh_result_def)
    next
      case (Inr in_i)
      obtain q h2 where a2: "alloc (Vec in_i) h1 = (q, h2)" by (cases "alloc (Vec in_i) h1")
      note f2 = frame_alloc[OF a2]
      obtain h3 r where l: "for_loop (rebin1d_step t q ay (length xout) (length xin))
                              [0..<length xout] h2 = (h3, r)"
        by (cases "for_loop (rebin1d_step t q ay (length xout) (length xin)) [0..<length xout] h2")
      have fr: "frame h h2" using f1 f2 frame_trans by blast
      have "frame h h3 \<and> next_addr h3 = next_addr h2"
        using loop_frame[OF loops_only_at(1)[OF l] fr] f1 by simp
      moreover have "(h', res) = (case r of Inl e \<Rightarrow> (h3, Inl e) | Inr u \<Rightarrow> (h3, Inr t))"
        using assms a1 dx Inr a2 l by (simp add: rebin1d_box_st_def split: sum.splits)
      ultimately show ?thesis using f1 f2 by (cases r) (auto simp: fresh_result_def)
    qed
  qed
qed

lemma rebin1d_st_frame:
  assumes "rebin1d_st ax_out ax_in ay h = (h', res)"
  shows "fresh_result h h' res"
proof (cases "bindE (get_vec h ax_out) (\<lambda>xout. bindE (get_vec h ax_in) (\<lambda>xin.
           bindE (spacings xout xin) (\<lambda>d. Inr (xout, xin, d))))")
  case (Inl e)
  then show ?thesis using assms by (auto simp: rebin1d_st_def fresh_result_def)
next
  case (Inr v)
  obtain xout xin dx_in dx_out where v: "v = (xout, xin, dx_in, dx_out)" by (cases v) auto
  show ?thesis
  proof (cases "dx_out < dx_in")
    case True
    show ?thesis
    proof (cases "bindE (get_vec h ay) (np_interp xout xin)")
      case (Inl e)
      then show ?thesis using assms Inr v True by (auto simp: rebin1d_st_def fresh_result_def)
    next
      case ys: (Inr ys)
      obtain r h1 where a: "alloc (VecF (map Fin ys)) h = (r, h1)"
        by (cases "alloc (VecF (map Fin ys)) h")
      then show ?thesis using assms Inr v True ys frame_alloc[OF a]
        by (auto simp: rebin1d_st_def fresh_result_def)
    qed
  next
    case False
    then show ?thesis using assms Inr v rebin1d_box_st_frame by (simp add: rebin1d_st_def)
  qed
qed

lemma rebin_cube_st_frame:
  assumes "rebin_cube_st ax_out ax_in ac h = (h', res)"
  shows "fresh_result h h' res"
proof (cases "bindE (get_vec h ax_out) (\<lambda>xout. bindE (get_vec h ax_in) (\<lambda>xin.
           bindE (spacings xout xin) (\<lambda>d. bindE (get_cub h ac) (\<lambda>c. Inr (xout, xin, d, c)))))")
  case (Inl e)
  then show ?thesis using assms by (auto simp: rebin_cube_st_def fresh_result_def)
next
  case (Inr v)
  obtain xout xin dx_in dx_out c where v: "v = (xout, xin, (dx_in, dx_out), c)"
    by (cases v) auto
  let ?z = "CubF \<lparr>shape1 = shape1 c, shape2 = shape2 c,
                   planes = replicate (length xout)
                              (replicate (shape1 c) (replicate (shape2 c) (Fin 0)))\<rparr>"
  obtain t h1 where a1: "alloc ?z h = (t, h1)" by (cases "alloc ?z h")
  note f1 = frame_alloc[OF a1]
  show ?thesis
  proof (cases "dx_out < dx_in")
    case True
    let ?body = "\<lambda>i. for_loop (cube_interp_step t ac xout xin i) [0..<shape1 c]"
    obtain h2 r where l: "for_loop ?body [0..<shape2 c] h1 = (h2, r)"
      by (cases "for_loop ?body [0..<shape2 c] h1")
    have "frame h h2 \<and> next_addr h2 = next_addr h1"
      using loop_frame[OF loops_only_at(2)[OF l], of h] f1 by simp
    moreover have "(h', res) = (case r of Inl e \<Rightarrow> (h2, Inl e) | Inr u \<Rightarrow> (h2, Inr t))"
      using assms Inr v a1 True l by (simp add: rebin_cube_st_def split: sum.splits)
    ultimately show ?thesis using f1 by (cases r) (auto simp: fresh_result_def)
  next
    case False
    show ?thesis
    proof (cases "dx_in = 0")
      case True
      then show ?thesis using assms Inr v a1 False f1
        by (auto simp: rebin_cube_st_def fresh_result_def)
    next
      case dx: False
      show ?thesis
      proof (cases "np_interp (map (\<lambda>x. x - dx_out * 0.5) xout) xin (np_range (length xin))")
        case (Inl e)
        then show ?thesis using assms Inr v a1 False dx f1
          by (auto simp: rebin_cube_st_def fresh_result_def)
      next
        case in_i: (Inr in_i)
        obtain q h2 where a2: "alloc (Vec in_i) h1 = (q, h2)" by (cases "alloc (Vec in_i) h1")
        note f2 = frame_alloc[OF a2]
        obtain h3 r where l: "for_loop (cube_box_step t q ac (length xout) (length xin))
                                [0..<length xout] h2 = (h3, r)"
          by (cases "for_loop (cube_box_step t q ac (length xout) (length xin))
                       [0..<length xout] h2")
        have fr: "frame h h2" using f1 f2 frame_trans by blast
        have "frame h h3 \<and> next_addr h3 = next_addr h2"
          using loop_frame[OF loops_only_at(3)[OF l] fr] f1 by simp
        moreover have "(h', res) = (case r of Inl e \<Rightarrow> (h3, Inl e) | Inr u \<Rightarrow> (h3, Inr t))"
          using assms Inr v a1 False dx in_i a2 l
          by (simp add: rebin_cube_st_def split: sum.splits)
        ultimately show ?thesis using f1 f2 by (cases r) (auto simp: fresh_result_def)
      qed
    qed
  qed
qed

lemma frebin2d_st_frame:
  assumes "frebin2d_st aa shape h = (h', res)"
  shows "fresh_result h h' res"
proof (cases "get_mat h aa")
  case (Inl e)
  then show ?thesis using assms by (auto simp: frebin2d_st_def fresh_result_def)
next
  case (Inr array)
  let ?sx = "fst shape" and ?sy = "snd shape"
  let ?x = "ncols array" and ?y = "length array"
  let ?xbox = "real ?x / real_of_int ?sx" and ?ybox = "real ?y / real_of_int ?sy"
  show ?thesis
  proof (cases "?sx = 0 \<or> ?sy = 0 \<or> ?sy < 0")
    case True
    then have "h' = h \<and> (\<exists>e. res = Inl e)"
      using assms Inr by (cases "?sx = 0"; cases "?sy = 0"; cases "?sy < 0")
        (auto simp: frebin2d_st_def Let_def)
    then show ?thesis by (auto simp: fresh_result_def)
  next
    case ok: False
    obtain t h1 where a1: "alloc (Mat (replicate (nat ?sy) (replicate ?x 0))) h = (t, h1)"
      by (cases "alloc (Mat (replicate (nat ?sy) (replicate ?x 0))) h")
    note f1 = frame_alloc[OF a1]
    obtain h2 r1 where l1: "for_loop (frebin_step1 t aa ?x ?ybox (int ?y - 1)) [0..<nat ?sy] h1
                              = (h2, r1)"
      by (cases "for_loop (frebin_step1 t aa ?x ?ybox (int ?y - 1)) [0..<nat ?sy] h1")
    have fr2: "frame h h2 \<and> next_addr h2 = next_addr h1"
      using loop_frame[OF loops_only_at(4)[OF l1], of h] f1 by simp
    show ?thesis
    proof (cases "(\<exists>e. r1 = Inl e) \<or> ?sx < 0")
      case True
      then have "h' = h2 \<and> (\<exists>e. res = Inl e)"
        using assms Inr ok a1 l1 by (auto simp: frebin2d_st_def Let_def split: sum.splits)
      then show ?thesis using fr2 by (auto simp: fresh_result_def)
    next
      case False
      then obtain u where r1: "r1 = Inr u" and sx: "\<not> ?sx < 0" by (cases r1) auto
      obtain res' h3 where a3: "alloc (Mat (replicate (nat ?sx) (replicate (nat ?sy) 0))) h2
                                  = (res', h3)"
        by (cases "alloc (Mat (replicate (nat ?sx) (replicate (nat ?sy) 0))) h2")
      note f3 = frame_alloc[OF a3]
      obtain h4 r2 where l2: "for_loop (frebin_step2 res' t ?x (nat ?sy) ?xbox (int ?x - 1))
                                [0..<nat ?sx] h3 = (h4, r2)"
        by (cases "for_loop (frebin_step2 res' t ?x (nat ?sy) ?xbox (int ?x - 1)) [0..<nat ?sx] h3")
      have fr3: "frame h h3" using fr2 f3 frame_trans by blast
      have le: "next_addr h \<le> res'" using f3 fr2 f1 by simp
      have fr4: "frame h h4 \<and> next_addr h4 = next_addr h3"
        using loop_frame[OF loops_only_at(5)[OF l2] fr3 le] by simp
      show ?thesis
      proof (cases "(\<exists>e. r2 = Inl e) \<or> (\<exists>e. get_mat h4 res' = Inl e)")
        case True
        then have "h' = h4 \<and> (\<exists>e. res = Inl e)"
          using assms Inr ok a1 l1 r1 sx a3 l2
          by (auto simp: frebin2d_st_def Let_def split: sum.splits)
        then show ?thesis using fr4 by (auto simp: fresh_result_def)
      next
        case False
        then obtain u' rm where r2: "r2 = Inr u'" and rm: "get_mat h4 res' = Inr rm"
          by (cases r2; cases "get_mat h4 res'") auto
        let ?o = "MatF (map (map (\<lambda>v. np_div v (?xbox * ?ybox))) (np_transpose (nat ?sy) rm))"
        obtain out h5 where a5: "alloc ?o h4 = (out, h5)" by (cases "alloc ?o h4")
        note f5 = frame_alloc[OF a5]
        have "h' = h5 \<and> res = Inr out"
          using assms Inr ok a1 l1 r1 sx a3 l2 r2 rm a5
          by (auto simp: frebin2d_st_def Let_def)
        moreover have "frame h h5" using fr4 f5 frame_trans by blast
        moreover have "next_addr h \<le> out" using f5 fr4 by (simp add: frame_def)
        ultimately show ?thesis using f5 by (simp add: fresh_result_def)
      qed
    qed
  qed
qed

subsection \<open>The store model returns the results of the pure model\<close>

lemma fill_loop:
  fixes put :: "nat \<Rightarrow> 'v \<Rightarrow> heap \<Rightarrow> heap" and content :: "heap \<Rightarrow> 'v list option"
  assumes step: "\<And>i h. P h \<Longrightarrow>
            body i h = (case g i of Inl e \<Rightarrow> (h, Inl e) | Inr v \<Rightarrow> (put i v h, Inr ()))"
    and keep: "\<And>i v h. P h \<Longrightarrow> P (put i v h)"
    and upd: "\<And>i v h xs. P h \<Longrightarrow> content h = Some xs \<Longrightarrow> content (put i v h) = Some (xs[i := v])"
  shows "P h \<Longrightarrow> content h = Some xs \<Longrightarrow> length xs = n \<Longrightarrow> k \<le> n \<Longrightarrow>
         (case mapE g [k..<n] of
            Inl e \<Rightarrow> (\<exists>h'. for_loop body [k..<n] h = (h', Inl e))
          | Inr vs \<Rightarrow> (\<exists>h'. for_loop body [k..<n] h = (h', Inr ()) \<and> P h'
                          \<and> content h' = Some (take k xs @ vs)))"
proof (induction "n - k" arbitrary: k h xs)
  case 0
  then show ?case by simp
next
  case (Suc m)
  then have kn: "k < n" by simp
  then have u: "[k..<n] = k # [Suc k..<n]" by (simp add: upt_conv_Cons)
  show ?case
  proof (cases "g k")
    case (Inl e)
    then show ?thesis using step[OF Suc.prems(1), of k] by (simp add: u)
  next
    case (Inr v)
    let ?h = "put k v h"
    have b: "body k h = (?h, Inr ())" using step[OF Suc.prems(1), of k] Inr by simp
    have P: "P ?h" using keep Suc.prems(1) by blast
    have c: "content ?h = Some (xs[k := v])" using upd Suc.prems(1,2) by blast
    have m: "m = n - Suc k" using Suc.hyps(2) by simp
    have IH: "case mapE g [Suc k..<n] of
            Inl e \<Rightarrow> (\<exists>h'. for_loop body [Suc k..<n] ?h = (h', Inl e))
          | Inr vs \<Rightarrow> (\<exists>h'. for_loop body [Suc k..<n] ?h = (h', Inr ()) \<and> P h'
                          \<and> content h' = Some (take (Suc k) (xs[k := v]) @ vs))"
      using Suc.hyps(1)[OF m P c] Suc.prems(3) kn by simp
    have t: "take (Suc k) (xs[k := v]) = take k xs @ [v]"
      using kn Suc.prems(3) by (simp add: take_Suc_conv_app_nth)
    show ?thesis
      using IH by (cases "mapE g [Suc k..<n]") (simp_all add: u Inr b t)
  qed
qed

lemma rebin1d_box_st_computes:
  assumes "cells h ay = Some (Vec yin)" "ay < next_addr h"
  shows "case rebin1d_box xout xin yin dx_in dx_out of
           Inl e \<Rightarrow> snd (rebin1d_box_st ay xout xin dx_in dx_out h) = Inl e
         | Inr out \<Rightarrow> (\<exists>r. snd (rebin1d_box_st ay xout xin dx_in dx_out h) = Inr r
               \<and> cells (fst (rebin1d_box_st ay xout xin dx_in dx_out h)) r = Some (VecF out))"
proof (cases "dx_in = 0")
  case True
  then show ?thesis by (simp add: rebin1d_box_def rebin1d_box_st_def alloc_def)
next
  case dx: False
  let ?t = "next_addr h"
  let ?h1 = "\<lparr>next_addr = Suc ?t,
              cells = (cells h)(?t \<mapsto> VecF (replicate (length xout) (Fin 0)))\<rparr>"
  show ?thesis
  proof (cases "np_interp (map (\<lambda>x. x - dx_out * 0.5) xout) xin (np_range (length xin))")
    case (Inl e)
    then show ?thesis using dx by (simp add: rebin1d_box_def rebin1d_box_st_def alloc_def)
  next
    case (Inr in_i)
    let ?q = "Suc ?t"
    let ?h2 = "\<lparr>next_addr = Suc ?q, cells = (cells ?h1)(?q \<mapsto> Vec in_i)\<rparr>"
    let ?g = "\<lambda>i. bindE (box_bin in_i (length xout) (length xin) i) (rebin1d_value yin)"
    let ?P = "\<lambda>g :: heap. cells g ?q = Some (Vec in_i) \<and> cells g ay = Some (Vec yin)
                   \<and> (\<exists>xs. cells g ?t = Some (VecF xs))"
    let ?body = "rebin1d_step ?t ?q ay (length xout) (length xin)"
    have P2: "?P ?h2" using assms by simp
    have c2: "vecF_at ?t ?h2 = Some (replicate (length xout) (Fin 0))"
      by (simp add: vecF_at_def)
    have fl: "case mapE ?g [0..<length xout] of
            Inl e \<Rightarrow> (\<exists>h'. for_loop ?body [0..<length xout] ?h2 = (h', Inl e))
          | Inr vs \<Rightarrow> (\<exists>h'. for_loop ?body [0..<length xout] ?h2 = (h', Inr ()) \<and> ?P h'
                          \<and> vecF_at ?t h' = Some (take 0 (replicate (length xout) (Fin 0)) @ vs))"
    proof (rule fill_loop[where P = ?P and put = "put_elem ?t" and content = "vecF_at ?t"
            and g = ?g and body = ?body, OF _ _ _ P2 c2])
      fix i and g :: heap assume "?P g"
      then show "?body i g = (case ?g i of Inl e \<Rightarrow> (g, Inl e)
                               | Inr v \<Rightarrow> (put_elem ?t i v g, Inr ()))"
        by (simp add: rebin1d_step_def get_vec_def)
    next
      fix i v and g :: heap assume "?P g"
      then show "?P (put_elem ?t i v g)" using assms(2) by (auto simp: put_elem_def)
    next
      fix i v xs and g :: heap assume "?P g" "vecF_at ?t g = Some xs"
      then show "vecF_at ?t (put_elem ?t i v g) = Some (xs[i := v])"
        by (auto simp: put_elem_def vecF_at_def)
    qed simp_all
    have st: "rebin1d_box_st ay xout xin dx_in dx_out h =
            (case for_loop ?body [0..<length xout] ?h2 of
               (h3, Inl e) \<Rightarrow> (h3, Inl e) | (h3, Inr u) \<Rightarrow> (h3, Inr ?t))"
      using dx Inr by (simp add: rebin1d_box_st_def alloc_def)
    have pu: "rebin1d_box xout xin yin dx_in dx_out = mapE ?g [0..<length xout]"
      using dx Inr by (simp add: rebin1d_box_def)
    show ?thesis
    proof (cases "mapE ?g [0..<length xout]")
      case (Inl e)
      then show ?thesis using fl st pu by auto
    next
      case (Inr vs)
      then obtain h' where "for_loop ?body [0..<length xout] ?h2 = (h', Inr ())"
        "vecF_at ?t h' = Some vs" using fl by auto
      then show ?thesis using st pu Inr
        by (auto simp: vecF_at_def split: option.splits ndarray.splits)
    qed
  qed
qed

lemma rebin1d_st_computes:
  assumes "cells h ax_out = Some (Vec xout)" "cells h ax_in = Some (Vec xin)"
    "cells h ay = Some (Vec yin)" "ay < next_addr h"
  shows "case rebin1d xout xin yin of
           Inl e \<Rightarrow> snd (rebin1d_st ax_out ax_in ay h) = Inl e
         | Inr out \<Rightarrow> (\<exists>r. snd (rebin1d_st ax_out ax_in ay h) = Inr r
               \<and> cells (fst (rebin1d_st ax_out ax_in ay h)) r = Some (VecF out))"
proof (cases "spacings xout xin")
  case (Inl e)
  then show ?thesis using assms by (simp add: rebin1d_def rebin1d_st_def get_vec_def)
next
  case (Inr d)
  obtain dx_in dx_out where d: "d = (dx_in, dx_out)" by (cases d)
  show ?thesis
  proof (cases "dx_out < dx_in")
    case True
    then show ?thesis using assms Inr d
      by (cases "np_interp xout xin yin")
         (simp_all add: rebin1d_def rebin1d_st_def get_vec_def alloc_def)
  next
    case False
    have e: "rebin1d_st ax_out ax_in ay h = rebin1d_box_st ay xout xin dx_in dx_out h"
      using assms(1,2) Inr d False by (simp add: rebin1d_st_def get_vec_def)
    have p: "rebin1d xout xin yin = rebin1d_box xout xin yin dx_in dx_out"
      using Inr d False by (simp add: rebin1d_def)
    show ?thesis unfolding e p by (rule rebin1d_box_st_computes[OF assms(3,4)])
  qed
qed

lemma mat_at_put_row: "mat_at t h = Some m \<Longrightarrow> mat_at t (put_row t i r h) = Some (m[i := r])"
  by (auto simp: put_row_def mat_at_def split: option.splits ndarray.splits)

lemma mat_at_get: "mat_at t h = Some m \<Longrightarrow> get_mat h t = Inr m"
  by (auto simp: get_mat_def mat_at_def split: option.splits ndarray.splits)

lemma frebin_pass_st:
  fixes f :: "nat \<Rightarrow> error + real list"
  assumes step: "\<And>i g. P g \<Longrightarrow>
            body i g = (case f i of Inl e \<Rightarrow> (g, Inl e) | Inr r \<Rightarrow> (put_row t i r g, Inr ()))"
    and keep: "\<And>i r g. P g \<Longrightarrow> P (put_row t i r g)"
    and "P h" "mat_at t h = Some z" "length z = n"
  shows "case mapE f [0..<n] of
           Inl e \<Rightarrow> (\<exists>h'. for_loop body [0..<n] h = (h', Inl e))
         | Inr rows \<Rightarrow> (\<exists>h'. for_loop body [0..<n] h = (h', Inr ()) \<and> P h'
                          \<and> mat_at t h' = Some rows)"
proof -
  have "case mapE f [0..<n] of
            Inl e \<Rightarrow> (\<exists>h'. for_loop body [0..<n] h = (h', Inl e))
          | Inr vs \<Rightarrow> (\<exists>h'. for_loop body [0..<n] h = (h', Inr ()) \<and> P h'
                          \<and> mat_at t h' = Some (take 0 z @ vs))"
    by (rule fill_loop[where P = P and put = "put_row t" and content = "mat_at t",
          OF step keep mat_at_put_row assms(3,4,5)]) simp_all
  then show ?thesis by (cases "mapE f [0..<n]") simp_all
qed

lemma frebin2d_st_computes:
  assumes "cells h aa = Some (Mat array)" "aa < next_addr h"
  shows "case frebin2d array shape of
           Inl e \<Rightarrow> snd (frebin2d_st aa shape h) = Inl e
         | Inr out \<Rightarrow> (\<exists>r. snd (frebin2d_st aa shape h) = Inr r
               \<and> cells (fst (frebin2d_st aa shape h)) r = Some (MatF out))"
proof -
  let ?sx = "fst shape" and ?sy = "snd shape"
  let ?x = "ncols array" and ?y = "length array"
  let ?xbox = "real ?x / real_of_int ?sx" and ?ybox = "real ?y / real_of_int ?sy"
  have ga: "get_mat h aa = Inr array" using assms(1) by (simp add: get_mat_def)
  show ?thesis
  proof (cases "?sx = 0 \<or> ?sy = 0 \<or> ?sy < 0")
    case True
    then show ?thesis using ga
      by (cases "?sx = 0"; cases "?sy = 0"; cases "?sy < 0")
         (auto simp: frebin2d_def frebin2d_st_def Let_def)
  next
    case ok: False
    let ?t = "next_addr h"
    let ?h1 = "\<lparr>next_addr = Suc ?t,
                cells = (cells h)(?t \<mapsto> Mat (replicate (nat ?sy) (replicate ?x 0)))\<rparr>"
    let ?f1 = "frebin_line array ?x ?ybox (int ?y - 1)"
    let ?b1 = "frebin_step1 ?t aa ?x ?ybox (int ?y - 1)"
    let ?P1 = "\<lambda>g :: heap. cells g aa = Some (Mat array) \<and> next_addr g = Suc ?t"
    have l1: "case mapE ?f1 [0..<nat ?sy] of
           Inl e \<Rightarrow> (\<exists>h'. for_loop ?b1 [0..<nat ?sy] ?h1 = (h', Inl e))
         | Inr rows \<Rightarrow> (\<exists>h'. for_loop ?b1 [0..<nat ?sy] ?h1 = (h', Inr ()) \<and> ?P1 h'
                          \<and> mat_at ?t h' = Some rows)"
    proof (rule frebin_pass_st[where P = ?P1 and z = "replicate (nat ?sy) (replicate ?x 0)"])
      fix i and g :: heap assume "?P1 g"
      then show "?b1 i g = (case ?f1 i of Inl e \<Rightarrow> (g, Inl e)
                              | Inr r \<Rightarrow> (put_row ?t i r g, Inr ()))"
        by (simp add: frebin_step1_def get_mat_def)
    next
      fix i r and g :: heap assume "?P1 g"
      then show "?P1 (put_row ?t i r g)" using assms(2)
        by (auto simp: put_row_def split: option.splits ndarray.splits)
    qed (use assms in \<open>simp_all add: mat_at_def\<close>)
    have st1: "frebin2d_st aa shape h =
        (case for_loop ?b1 [0..<nat ?sy] ?h1 of
           (h2, Inl e) \<Rightarrow> (h2, Inl e)
         | (h2, Inr u) \<Rightarrow>
             if ?sx < 0 then (h2, Inl ValueError)
             else
               let (res, h3) = alloc (Mat (replicate (nat ?sx) (replicate (nat ?sy) 0))) h2
               in (case for_loop (frebin_step2 res ?t ?x (nat ?sy) ?xbox (int ?x - 1))
                          [0..<nat ?sx] h3 of
                     (h4, Inl e) \<Rightarrow> (h4, Inl e)
                   | (h4, Inr u) \<Rightarrow>
                       (case get_mat h4 res of
                          Inl e \<Rightarrow> (h4, Inl e)
                        | Inr rm \<Rightarrow>
                            let (out, h5) =
                                  alloc (MatF (map (map (\<lambda>v. np_div v (?xbox * ?ybox)))
                                           (np_transpose (nat ?sy) rm))) h4
                            in (h5, Inr out))))"
      using ok ga by (simp add: frebin2d_st_def Let_def alloc_def)
    have pu1: "frebin2d array shape =
        bindE (mapE ?f1 [0..<nat ?sy]) (\<lambda>temp.
          if ?sx < 0 then Inl ValueError
          else bindE (mapE (frebin_line (np_transpose ?x temp) (nat ?sy) ?xbox (int ?x - 1))
                        [0..<nat ?sx]) (\<lambda>result.
               Inr (map (map (\<lambda>v. np_div v (?xbox * ?ybox))) (np_transpose (nat ?sy) result))))"
      using ok by (simp add: frebin2d_def Let_def)
    show ?thesis
    proof (cases "mapE ?f1 [0..<nat ?sy]")
      case (Inl e)
      then show ?thesis using l1 st1 pu1 by auto
    next
      case (Inr temp)
      then obtain h2 where h2: "for_loop ?b1 [0..<nat ?sy] ?h1 = (h2, Inr ())"
        "next_addr h2 = Suc ?t" "mat_at ?t h2 = Some temp" using l1 by auto
      show ?thesis
      proof (cases "?sx < 0")
        case True
        then show ?thesis using st1 pu1 Inr h2 by simp
      next
        case sx: False
        let ?res = "Suc ?t"
        let ?h3 = "\<lparr>next_addr = Suc ?res,
                    cells = (cells h2)(?res \<mapsto> Mat (replicate (nat ?sx) (replicate (nat ?sy) 0)))\<rparr>"
        let ?t' = "np_transpose ?x temp"
        let ?f2 = "frebin_line ?t' (nat ?sy) ?xbox (int ?x - 1)"
        let ?b2 = "frebin_step2 ?res ?t ?x (nat ?sy) ?xbox (int ?x - 1)"
        let ?P2 = "\<lambda>g :: heap. mat_at ?t g = Some temp \<and> next_addr g = Suc ?res"
        have l2: "case mapE ?f2 [0..<nat ?sx] of
           Inl e \<Rightarrow> (\<exists>h'. for_loop ?b2 [0..<nat ?sx] ?h3 = (h', Inl e))
         | Inr rows \<Rightarrow> (\<exists>h'. for_loop ?b2 [0..<nat ?sx] ?h3 = (h', Inr ()) \<and> ?P2 h'
                          \<and> mat_at ?res h' = Some rows)"
        proof (rule frebin_pass_st[where P = ?P2
                and z = "replicate (nat ?sx) (replicate (nat ?sy) 0)"])
          fix i and g :: heap assume "?P2 g"
          then show "?b2 i g = (case ?f2 i of Inl e \<Rightarrow> (g, Inl e)
                                  | Inr r \<Rightarrow> (put_row ?res i r g, Inr ()))"
            by (simp add: frebin_step2_def mat_at_get)
        next
          fix i r and g :: heap assume "?P2 g"
          then show "?P2 (put_row ?res i r g)"
            by (auto simp: put_row_def mat_at_def split: option.splits ndarray.splits)
        qed (use h2 in \<open>simp_all add: mat_at_def\<close>)
        have st2: "frebin2d_st aa shape h =
              (case for_loop ?b2 [0..<nat ?sx] ?h3 of
                     (h4, Inl e) \<Rightarrow> (h4, Inl e)
                   | (h4, Inr u) \<Rightarrow>
                       (case get_mat h4 ?res of
                          Inl e \<Rightarrow> (h4, Inl e)
                        | Inr rm \<Rightarrow>
                            let (out, h5) =
                                  alloc (MatF (map (map (\<lambda>v. np_div v (?xbox * ?ybox)))
                                           (np_transpose (nat ?sy) rm))) h4
                            in (h5, Inr out)))"
          using st1 h2 sx by (simp add: alloc_def)
        have pu2: "frebin2d array shape =
            bindE (mapE ?f2 [0..<nat ?sx]) (\<lambda>result.
               Inr (map (map (\<lambda>v. np_div v (?xbox * ?ybox))) (np_transpose (nat ?sy) result)))"
          using pu1 Inr sx by simp
        show ?thesis
        proof (cases "mapE ?f2 [0..<nat ?sx]")
          case (Inl e)
          then show ?thesis using l2 st2 pu2 by auto
        next
          case r: (Inr result)
          then obtain h4 where h4: "for_loop ?b2 [0..<nat ?sx] ?h3 = (h4, Inr ())"
            "mat_at ?res h4 = Some result" using l2 by auto
          show ?thesis using st2 pu2 r h4 mat_at_get[OF h4(2)]
            by (simp add: alloc_def)
        qed
      qed
    qed
  qed
qed

lemma loop_fold:
  fixes put :: "nat \<Rightarrow> 'v \<Rightarrow> heap \<Rightarrow> heap" and content :: "heap \<Rightarrow> 'c option"
  assumes step: "\<And>i h. P h \<Longrightarrow>
            (case g i of Inl e \<Rightarrow> (\<exists>h'. body i h = (h', Inl e))
                       | Inr v \<Rightarrow> body i h = (put i v h, Inr ()))"
    and keep: "\<And>i v h. P h \<Longrightarrow> g i = Inr v \<Longrightarrow> P (put i v h)"
    and upd: "\<And>i v h c. P h \<Longrightarrow> g i = Inr v \<Longrightarrow> content h = Some c
                \<Longrightarrow> content (put i v h) = Some (F i v c)"
  shows "P h \<Longrightarrow> content h = Some c \<Longrightarrow>
         (case mapE g is of
            Inl e \<Rightarrow> (\<exists>h'. for_loop body is h = (h', Inl e))
          | Inr vs \<Rightarrow> (\<exists>h'. for_loop body is h = (h', Inr ()) \<and> P h'
                          \<and> content h' = Some (fold (\<lambda>(i, v). F i v) (zip is vs) c)))"
proof (induction "is" arbitrary: h c)
  case Nil
  then show ?case by simp
next
  case (Cons i "is")
  show ?case
  proof (cases "g i")
    case (Inl e)
    then show ?thesis using step[OF Cons.prems(1), of i] by auto
  next
    case (Inr v)
    let ?h = "put i v h"
    have b: "body i h = (?h, Inr ())" using step[OF Cons.prems(1), of i] Inr by simp
    have P: "P ?h" using keep Cons.prems(1) Inr by blast
    have c: "content ?h = Some (F i v c)" using upd Cons.prems Inr by blast
    show ?thesis
      using Cons.IH[OF P c] by (cases "mapE g is") (auto simp: Inr b)
  qed
qed

lemma fold_zip_map: "fold (\<lambda>(i, v). f i v) (zip is (map h is)) c = fold (\<lambda>i. f i (h i)) is c"
  by (induction "is" arbitrary: c) simp_all

lemma planes_at_put_spectrum:
  "planes_at t h = Some ps \<Longrightarrow> planes_at t (put_spectrum t j i ys h) = Some (col_upd i j ys ps)"
  by (auto simp: planes_at_def put_spectrum_def col_upd_def split: option.splits ndarray.splits)

lemma planes_at_put_plane:
  "planes_at t h = Some ps \<Longrightarrow> planes_at t (put_plane t i p h) = Some (ps[i := p])"
  by (auto simp: planes_at_def put_plane_def split: option.splits ndarray.splits)

lemma cubF_shaped_put:
  "cubF_shaped t s1 s2 h \<Longrightarrow> cubF_shaped t s1 s2 (put_spectrum t j i ys h)"
  "cubF_shaped t s1 s2 h \<Longrightarrow> cubF_shaped t s1 s2 (put_plane t k p h)"
  by (auto simp: cubF_shaped_def put_spectrum_def put_plane_def)

lemma cubF_final:
  assumes "cubF_shaped t s1 s2 h" "planes_at t h = Some ps"
  shows "cells h t = Some (CubF \<lparr>shape1 = s1, shape2 = s2, planes = ps\<rparr>)"
  using assms by (auto simp: cubF_shaped_def planes_at_def)

lemma filled_zeros:
  "filled n s1 s2 (\<lambda>j i. False) val (replicate n (replicate s1 (replicate s2 (Fin 0))))"
  by (simp add: filled_def)

lemma filled_cong:
  "filled n s1 s2 W val ps \<Longrightarrow> (\<And>j i. j < s1 \<Longrightarrow> i < s2 \<Longrightarrow> W j i = W' j i)
     \<Longrightarrow> filled n s1 s2 W' val ps"
  by (simp add: filled_def)

lemma filled_col:
  assumes "filled n s1 s2 W val ps" "j < s1" "i < s2" "length ys = n"
    "\<And>k. k < n \<Longrightarrow> Fin (ys ! k) = val i j k"
  shows "filled n s1 s2 (\<lambda>j' i'. W j' i' \<or> (j' = j \<and> i' = i)) val (col_upd i j ys ps)"
proof -
  have len: "length ps = n" using assms(1) by (simp add: filled_def)
  have nth: "col_upd i j ys ps ! k = (ps ! k)[j := (ps ! k ! j)[i := Fin (ys ! k)]]" if "k < n" for k
    using that len assms(4) by (simp add: col_upd_def)
  have l0: "length (col_upd i j ys ps) = n" using len assms(4) by (simp add: col_upd_def)
  show ?thesis
    unfolding filled_def
  proof (intro conjI allI impI)
    show "length (col_upd i j ys ps) = n" by (rule l0)
  next
    fix k assume k: "k < n"
    show "length (col_upd i j ys ps ! k) = s1"
      using assms(1) k by (simp add: nth filled_def)
  next
    fix k j' assume k: "k < n" and j': "j' < s1"
    have a: "length (ps ! k) = s1" "length (ps ! k ! j') = s2" "length (ps ! k ! j) = s2"
      using assms(1,2) k j' by (simp_all add: filled_def)
    show "length (col_upd i j ys ps ! k ! j') = s2"
    proof (cases "j' = j")
      case True
      then show ?thesis using a(1,3) assms(2) by (simp add: nth[OF k])
    next
      case False
      then show ?thesis using a(2) by (simp add: nth[OF k])
    qed
  next
    fix k j' i' assume k: "k < n" and j': "j' < s1" and i': "i' < s2"
    have a: "length (ps ! k) = s1" "length (ps ! k ! j) = s2"
      "ps ! k ! j' ! i' = (if W j' i' then val i' j' k else Fin 0)"
      using assms(1,2) k j' i' by (simp_all add: filled_def)
    show "col_upd i j ys ps ! k ! j' ! i' =
            (if W j' i' \<or> (j' = j \<and> i' = i) then val i' j' k else Fin 0)"
      using a assms(2,3) assms(5)[OF k] k j' i' by (auto simp: nth nth_list_update)
  qed
qed

lemma filled_inner:
  assumes "filled n s1 s2 W val ps" "i < s2" "m \<le> s1"
    and "\<And>j. j < s1 \<Longrightarrow> length (v j) = n \<and> (\<forall>k<n. Fin (v j ! k) = val i j k)"
  shows "filled n s1 s2 (\<lambda>j' i'. W j' i' \<or> (j' < m \<and> i' = i)) val
           (fold (\<lambda>j. col_upd i j (v j)) [0..<m] ps)"
  using assms(3)
proof (induction m)
  case 0
  then show ?case using assms(1) by simp
next
  case (Suc m)
  then have m: "m < s1" and IH: "filled n s1 s2 (\<lambda>j' i'. W j' i' \<or> (j' < m \<and> i' = i)) val
           (fold (\<lambda>j. col_upd i j (v j)) [0..<m] ps)" by simp_all
  have "filled n s1 s2 (\<lambda>j' i'. (W j' i' \<or> (j' < m \<and> i' = i)) \<or> (j' = m \<and> i' = i)) val
          (col_upd i m (v m) (fold (\<lambda>j. col_upd i j (v j)) [0..<m] ps))"
    using assms(4)[OF m] by (intro filled_col[OF IH m assms(2)]) simp_all
  then have "filled n s1 s2 (\<lambda>j' i'. W j' i' \<or> (j' < Suc m \<and> i' = i)) val
          (col_upd i m (v m) (fold (\<lambda>j. col_upd i j (v j)) [0..<m] ps))"
    by (rule filled_cong) (auto simp: less_Suc_eq)
  then show ?case by simp
qed

lemma filled_outer:
  assumes "filled n s1 s2 W val ps" "m \<le> s2"
    and "\<And>i j. i < s2 \<Longrightarrow> j < s1 \<Longrightarrow> length (v i j) = n \<and> (\<forall>k<n. Fin (v i j ! k) = val i j k)"
  shows "filled n s1 s2 (\<lambda>j' i'. W j' i' \<or> i' < m) val
           (fold (\<lambda>i. fold (\<lambda>j. col_upd i j (v i j)) [0..<s1]) [0..<m] ps)"
  using assms(2)
proof (induction m)
  case 0
  then show ?case using assms(1) by simp
next
  case (Suc m)
  then have m: "m < s2" and IH: "filled n s1 s2 (\<lambda>j' i'. W j' i' \<or> i' < m) val
           (fold (\<lambda>i. fold (\<lambda>j. col_upd i j (v i j)) [0..<s1]) [0..<m] ps)" by simp_all
  have "filled n s1 s2 (\<lambda>j' i'. (W j' i' \<or> i' < m) \<or> (j' < s1 \<and> i' = m)) val
          (fold (\<lambda>j. col_upd m j (v m j)) [0..<s1]
             (fold (\<lambda>i. fold (\<lambda>j. col_upd i j (v i j)) [0..<s1]) [0..<m] ps))"
    using assms(3)[OF m] by (intro filled_inner[OF IH m]) simp_all
  then have "filled n s1 s2 (\<lambda>j' i'. W j' i' \<or> i' < Suc m) val
          (fold (\<lambda>j. col_upd m j (v m j)) [0..<s1]
             (fold (\<lambda>i. fold (\<lambda>j. col_upd i j (v i j)) [0..<s1]) [0..<m] ps))"
    by (rule filled_cong) (auto simp: less_Suc_eq)
  then show ?case by simp
qed

lemma filled_all:
  assumes "filled n s1 s2 W val ps" "\<And>j i. j < s1 \<Longrightarrow> i < s2 \<Longrightarrow> W j i"
  shows "ps = map (\<lambda>k. map (\<lambda>j. map (\<lambda>i. val i j k) [0..<s2]) [0..<s1]) [0..<n]"
proof (rule nth_equalityI)
  show "length ps = length (map (\<lambda>k. map (\<lambda>j. map (\<lambda>i. val i j k) [0..<s2]) [0..<s1]) [0..<n])"
    using assms(1) by (simp add: filled_def)
next
  fix k assume "k < length ps"
  then have k: "k < n" using assms(1) by (simp add: filled_def)
  have "ps ! k = map (\<lambda>j. map (\<lambda>i. val i j k) [0..<s2]) [0..<s1]"
  proof (rule nth_equalityI)
    show "length (ps ! k) = length (map (\<lambda>j. map (\<lambda>i. val i j k) [0..<s2]) [0..<s1])"
      using assms(1) k by (simp add: filled_def)
  next
    fix j assume "j < length (ps ! k)"
    then have j: "j < s1" using assms(1) k by (simp add: filled_def)
    have "ps ! k ! j = map (\<lambda>i. val i j k) [0..<s2]"
      using assms k j by (intro nth_equalityI) (simp_all add: filled_def)
    then show "ps ! k ! j = map (\<lambda>j. map (\<lambda>i. val i j k) [0..<s2]) [0..<s1] ! j"
      using j by simp
  qed
  then show "ps ! k = map (\<lambda>k. map (\<lambda>j. map (\<lambda>i. val i j k) [0..<s2]) [0..<s1]) [0..<n] ! k"
    using k by simp
qed

lemma cube_interp_inner:
  fixes g :: heap
  assumes "cells g ac = Some (Cub c)" "ac \<noteq> t" "cubF_shaped t s1 s2 g" "planes_at t g = Some ps"
  shows "case mapE (\<lambda>j. np_interp xout xin (spectrum c j i)) js of
           Inl e \<Rightarrow> (\<exists>h'. for_loop (cube_interp_step t ac xout xin i) js g = (h', Inl e))
         | Inr vs \<Rightarrow> (\<exists>h'. for_loop (cube_interp_step t ac xout xin i) js g = (h', Inr ())
               \<and> (cells h' ac = Some (Cub c) \<and> cubF_shaped t s1 s2 h')
               \<and> planes_at t h' = Some (fold (\<lambda>(j, ys). col_upd i j ys) (zip js vs) ps))"
proof (rule loop_fold[where P = "\<lambda>g. cells g ac = Some (Cub c) \<and> cubF_shaped t s1 s2 g"
        and put = "\<lambda>j ys. put_spectrum t j i ys" and content = "planes_at t"
        and F = "\<lambda>j ys. col_upd i j ys"])
  fix j and h :: heap assume "cells h ac = Some (Cub c) \<and> cubF_shaped t s1 s2 h"
  then show "case np_interp xout xin (spectrum c j i) of
               Inl e \<Rightarrow> \<exists>h'. cube_interp_step t ac xout xin i j h = (h', Inl e)
             | Inr v \<Rightarrow> cube_interp_step t ac xout xin i j h = (put_spectrum t j i v h, Inr ())"
    by (cases "np_interp xout xin (spectrum c j i)")
       (simp_all add: cube_interp_step_def get_cub_def)
next
  fix j ys and h :: heap assume "cells h ac = Some (Cub c) \<and> cubF_shaped t s1 s2 h"
  then show "cells (put_spectrum t j i ys h) ac = Some (Cub c)
             \<and> cubF_shaped t s1 s2 (put_spectrum t j i ys h)"
    using assms(2) only_at_put(4)[of t h j i ys] cubF_shaped_put(1)
    by (simp add: only_at_def)
next
  fix j ys ps' and h :: heap assume "planes_at t h = Some ps'"
  then show "planes_at t (put_spectrum t j i ys h) = Some (col_upd i j ys ps')"
    by (rule planes_at_put_spectrum)
qed (use assms in simp_all)

lemma cube_interp_loops:
  fixes h1 :: heap
  assumes "cells h1 ac = Some (Cub c)" "ac \<noteq> t" "cubF_shaped t (shape1 c) (shape2 c) h1"
    and "planes_at t h1 = Some (replicate (length xout)
                                 (replicate (shape1 c) (replicate (shape2 c) (Fin 0))))"
  shows "case rebin_cube_interp xout xin c of
           Inl e \<Rightarrow> (\<exists>h'. for_loop (\<lambda>i. for_loop (cube_interp_step t ac xout xin i) [0..<shape1 c])
                              [0..<shape2 c] h1 = (h', Inl e))
         | Inr out \<Rightarrow> (\<exists>h'. for_loop (\<lambda>i. for_loop (cube_interp_step t ac xout xin i) [0..<shape1 c])
                              [0..<shape2 c] h1 = (h', Inr ())
               \<and> cells h' t = Some (CubF out))"
proof -
  let ?s1 = "shape1 c" and ?s2 = "shape2 c" and ?n = "length xout"
  let ?P = "\<lambda>g :: heap. cells g ac = Some (Cub c) \<and> cubF_shaped t ?s1 ?s2 g"
  let ?G = "\<lambda>i. mapE (\<lambda>j. np_interp xout xin (spectrum c j i)) [0..<?s1]"
  let ?body = "\<lambda>i. for_loop (cube_interp_step t ac xout xin i) [0..<?s1]"
  let ?Fo = "\<lambda>i vs. fold (\<lambda>(j, ys). col_upd i j ys) (zip [0..<?s1] vs)"
  let ?z = "replicate ?n (replicate ?s1 (replicate ?s2 (Fin 0)))"
  have inner: "case ?G i of
           Inl e \<Rightarrow> (\<exists>h'. ?body i g = (h', Inl e))
         | Inr vs \<Rightarrow> (\<exists>h'. ?body i g = (h', Inr ()) \<and> ?P h'
               \<and> planes_at t h' = Some (?Fo i vs ps))"
    if "?P g" "planes_at t g = Some ps" for i ps and g :: heap
    using cube_interp_inner[OF _ assms(2), of g c ?s1 ?s2 ps xout xin i "[0..<?s1]"] that by simp
  have has: "\<exists>ps. planes_at t g = Some ps" if "?P g" for g :: heap
    using that by (auto simp: cubF_shaped_def planes_at_def)
  have outer: "case mapE ?G [0..<?s2] of
            Inl e \<Rightarrow> (\<exists>h'. for_loop ?body [0..<?s2] h1 = (h', Inl e))
          | Inr VS \<Rightarrow> (\<exists>h'. for_loop ?body [0..<?s2] h1 = (h', Inr ()) \<and> ?P h'
                \<and> planes_at t h' = Some (fold (\<lambda>(i, vs). ?Fo i vs) (zip [0..<?s2] VS) ?z))"
  proof (rule loop_fold[where P = ?P and put = "\<lambda>i vs g. fst (?body i g)"
          and content = "planes_at t" and F = ?Fo])
    fix i and g :: heap assume P: "?P g"
    obtain ps where ps: "planes_at t g = Some ps" using has[OF P] by blast
    show "case ?G i of Inl e \<Rightarrow> \<exists>h'. ?body i g = (h', Inl e)
                     | Inr v \<Rightarrow> ?body i g = (fst (?body i g), Inr ())"
      using inner[OF P ps, of i] by (cases "?G i") auto
  next
    fix i vs and g :: heap assume P: "?P g" and G: "?G i = Inr vs"
    obtain ps where ps: "planes_at t g = Some ps" using has[OF P] by blast
    show "?P (fst (?body i g))" using inner[OF P ps, of i] G by auto
  next
    fix i vs ps and g :: heap assume P: "?P g" and G: "?G i = Inr vs"
      and ps: "planes_at t g = Some ps"
    show "planes_at t (fst (?body i g)) = Some (?Fo i vs ps)"
      using inner[OF P ps, of i] G by auto
  qed (use assms in simp_all)
  show ?thesis
  proof (cases "mapE ?G [0..<?s2]")
    case (Inl e)
    then show ?thesis using outer by (simp add: rebin_cube_interp_def)
  next
    case (Inr VS)
    then obtain h' where h': "for_loop ?body [0..<?s2] h1 = (h', Inr ())" "?P h'"
      "planes_at t h' = Some (fold (\<lambda>(i, vs). ?Fo i vs) (zip [0..<?s2] VS) ?z)"
      using outer by auto
    have lv: "length VS = ?s2" using mapE_length[OF Inr] by simp
    have Gi: "?G i = Inr (VS ! i)" if "i < ?s2" for i using mapE_nth[OF Inr, of i] that by simp
    have li: "length (VS ! i) = ?s1" if "i < ?s2" for i
      using mapE_length[OF Gi[OF that]] by simp
    have gj: "np_interp xout xin (spectrum c j i) = Inr (VS ! i ! j)" if "i < ?s2" "j < ?s1" for i j
      using mapE_nth[OF Gi[OF that(1)], of j] that(2) by simp
    have lj: "length (VS ! i ! j) = ?n" if "i < ?s2" "j < ?s1" for i j
      using np_interp_Inr[OF gj[OF that]] .
    have VS: "VS = map (\<lambda>i. map (\<lambda>j. VS ! i ! j) [0..<?s1]) [0..<?s2]"
    proof (rule nth_equalityI)
      show "length VS = length (map (\<lambda>i. map (\<lambda>j. VS ! i ! j) [0..<?s1]) [0..<?s2])"
        using lv by simp
    next
      fix i assume "i < length VS"
      then have i: "i < ?s2" using lv by simp
      have "VS ! i = map (\<lambda>j. VS ! i ! j) [0..<?s1]"
        using li[OF i] by (intro nth_equalityI) simp_all
      then show "VS ! i = map (\<lambda>i. map (\<lambda>j. VS ! i ! j) [0..<?s1]) [0..<?s2] ! i"
        using i by simp
    qed
    have fo: "?Fo i (map (\<lambda>j. VS ! i ! j) [0..<?s1]) = fold (\<lambda>j. col_upd i j (VS ! i ! j)) [0..<?s1]"
      for i by (rule ext) (rule fold_zip_map)
    have "fold (\<lambda>(i, vs). ?Fo i vs) (zip [0..<?s2] VS) ?z
            = fold (\<lambda>(i, vs). ?Fo i vs)
                (zip [0..<?s2] (map (\<lambda>i. map (\<lambda>j. VS ! i ! j) [0..<?s1]) [0..<?s2])) ?z"
      using VS by simp
    also have "\<dots> = fold (\<lambda>i. ?Fo i (map (\<lambda>j. VS ! i ! j) [0..<?s1])) [0..<?s2] ?z"
      by (rule fold_zip_map)
    also have "\<dots> = fold (\<lambda>i. fold (\<lambda>j. col_upd i j (VS ! i ! j)) [0..<?s1]) [0..<?s2] ?z"
      by (simp only: fo)
    finally have fin: "planes_at t h'
        = Some (fold (\<lambda>i. fold (\<lambda>j. col_upd i j (VS ! i ! j)) [0..<?s1]) [0..<?s2] ?z)"
      using h'(3) by simp
    have "filled ?n ?s1 ?s2 (\<lambda>j' i'. False \<or> i' < ?s2) (\<lambda>i j k. Fin (VS ! i ! j ! k))
            (fold (\<lambda>i. fold (\<lambda>j. col_upd i j (VS ! i ! j)) [0..<?s1]) [0..<?s2] ?z)"
      using lj by (intro filled_outer filled_zeros) simp_all
    then have "fold (\<lambda>i. fold (\<lambda>j. col_upd i j (VS ! i ! j)) [0..<?s1]) [0..<?s2] ?z
          = map (\<lambda>k. map (\<lambda>j. map (\<lambda>i. Fin (VS ! i ! j ! k)) [0..<?s2]) [0..<?s1]) [0..<?n]"
      by (rule filled_all) simp
    then have "cells h' t = Some (CubF \<lparr>shape1 = ?s1, shape2 = ?s2,
          planes = map (\<lambda>k. map (\<lambda>j. map (\<lambda>i. Fin (VS ! i ! j ! k)) [0..<?s2]) [0..<?s1]) [0..<?n]\<rparr>)"
      using cubF_final[of t ?s1 ?s2 h'] h'(2) fin by simp
    then show ?thesis using Inr h'(1) by (simp add: rebin_cube_interp_def)
  qed
qed

lemma cube_box_loops:
  fixes h2 :: heap
  assumes "cells h2 q = Some (Vec in_i)" "cells h2 ac = Some (Cub c)" "ac \<noteq> t" "q \<noteq> t"
    and "cubF_shaped t s1 s2 h2" "planes_at t h2 = Some z" "length z = n"
  shows "case mapE (\<lambda>i. bindE (box_bin in_i n n_in i) (cube_plane c)) [0..<n] of
           Inl e \<Rightarrow> (\<exists>h'. for_loop (cube_box_step t q ac n n_in) [0..<n] h2 = (h', Inl e))
         | Inr ps \<Rightarrow> (\<exists>h'. for_loop (cube_box_step t q ac n n_in) [0..<n] h2 = (h', Inr ())
               \<and> cells h' t = Some (CubF \<lparr>shape1 = s1, shape2 = s2, planes = ps\<rparr>))"
proof -
  let ?P = "\<lambda>g :: heap. cells g q = Some (Vec in_i) \<and> cells g ac = Some (Cub c)
                          \<and> cubF_shaped t s1 s2 g"
  let ?g = "\<lambda>i. bindE (box_bin in_i n n_in i) (cube_plane c)"
  have "case mapE ?g [0..<n] of
            Inl e \<Rightarrow> (\<exists>h'. for_loop (cube_box_step t q ac n n_in) [0..<n] h2 = (h', Inl e))
          | Inr vs \<Rightarrow> (\<exists>h'. for_loop (cube_box_step t q ac n n_in) [0..<n] h2 = (h', Inr ())
                \<and> ?P h' \<and> planes_at t h' = Some (take 0 z @ vs))"
  proof (rule fill_loop[where P = ?P and put = "put_plane t" and content = "planes_at t"
          and g = ?g])
    fix i and g :: heap assume "?P g"
    then show "cube_box_step t q ac n n_in i g =
                 (case ?g i of Inl e \<Rightarrow> (g, Inl e) | Inr v \<Rightarrow> (put_plane t i v g, Inr ()))"
      by (simp add: cube_box_step_def get_vec_def get_cub_def)
  next
    fix i v and g :: heap assume "?P g"
    then show "?P (put_plane t i v g)"
      using assms(3,4) only_at_put(3)[of t g i v] cubF_shaped_put(2)
      by (simp add: only_at_def)
  next
    fix i v xs and g :: heap assume "planes_at t g = Some xs"
    then show "planes_at t (put_plane t i v g) = Some (xs[i := v])"
      by (rule planes_at_put_plane)
  qed (use assms in simp_all)
  then show ?thesis
    using cubF_final[of t s1 s2] by (cases "mapE ?g [0..<n]") auto
qed

lemma rebin_cube_st_computes:
  assumes "cells h ax_out = Some (Vec xout)" "cells h ax_in = Some (Vec xin)"
    "cells h ac = Some (Cub c)" "ac < next_addr h"
  shows "case rebin_cube_1d xout xin c of
           Inl e \<Rightarrow> snd (rebin_cube_st ax_out ax_in ac h) = Inl e
         | Inr out \<Rightarrow> (\<exists>r. snd (rebin_cube_st ax_out ax_in ac h) = Inr r
               \<and> cells (fst (rebin_cube_st ax_out ax_in ac h)) r = Some (CubF out))"
proof (cases "spacings xout xin")
  case (Inl e)
  then show ?thesis using assms by (simp add: rebin_cube_1d_def rebin_cube_st_def get_vec_def)
next
  case (Inr d)
  obtain dx_in dx_out where d: "d = (dx_in, dx_out)" by (cases d)
  let ?t = "next_addr h" and ?n = "length xout"
  let ?z = "replicate ?n (replicate (shape1 c) (replicate (shape2 c) (Fin 0)))"
  let ?h1 = "\<lparr>next_addr = Suc ?t,
              cells = (cells h)(?t \<mapsto> CubF \<lparr>shape1 = shape1 c, shape2 = shape2 c, planes = ?z\<rparr>)\<rparr>"
  have ne: "ac \<noteq> ?t" using assms(4) by simp
  have h1: "cells ?h1 ac = Some (Cub c)" "cubF_shaped ?t (shape1 c) (shape2 c) ?h1"
    "planes_at ?t ?h1 = Some ?z"
    using assms(3,4) by (simp_all add: cubF_shaped_def planes_at_def)
  show ?thesis
  proof (cases "dx_out < dx_in")
    case True
    let ?loops = "for_loop (\<lambda>i. for_loop (cube_interp_step ?t ac xout xin i) [0..<shape1 c])
                    [0..<shape2 c] ?h1"
    have st: "rebin_cube_st ax_out ax_in ac h =
            (case ?loops of (h2, Inl e) \<Rightarrow> (h2, Inl e) | (h2, Inr u) \<Rightarrow> (h2, Inr ?t))"
      using assms(1,2,3) Inr d True by (simp add: rebin_cube_st_def get_vec_def get_cub_def alloc_def)
    have pu: "rebin_cube_1d xout xin c = rebin_cube_interp xout xin c"
      using Inr d True by (simp add: rebin_cube_1d_def)
    show ?thesis
      using cube_interp_loops[OF h1(1) ne h1(2,3), of xin] st pu
      by (cases "rebin_cube_interp xout xin c") auto
  next
    case False
    have pu: "rebin_cube_1d xout xin c = rebin_cube_box xout xin c dx_in dx_out"
      using Inr d False by (simp add: rebin_cube_1d_def)
    show ?thesis
    proof (cases "dx_in = 0")
      case True
      then show ?thesis using assms(1,2,3) Inr d False pu
        by (simp add: rebin_cube_st_def rebin_cube_box_def get_vec_def get_cub_def alloc_def)
    next
      case dx: False
      show ?thesis
      proof (cases "np_interp (map (\<lambda>x. x - dx_out * 0.5) xout) xin (np_range (length xin))")
        case (Inl e)
        then show ?thesis using assms(1,2,3) Inr d False dx pu
          by (simp add: rebin_cube_st_def rebin_cube_box_def get_vec_def get_cub_def alloc_def)
      next
        case in_i: (Inr in_i)
        let ?q = "Suc ?t"
        let ?h2 = "\<lparr>next_addr = Suc ?q, cells = (cells ?h1)(?q \<mapsto> Vec in_i)\<rparr>"
        let ?loop = "for_loop (cube_box_step ?t ?q ac ?n (length xin)) [0..<?n] ?h2"
        have h2: "cells ?h2 ?q = Some (Vec in_i)" "cells ?h2 ac = Some (Cub c)"
          "cubF_shaped ?t (shape1 c) (shape2 c) ?h2" "planes_at ?t ?h2 = Some ?z"
          using assms(3,4) by (simp_all add: cubF_shaped_def planes_at_def)
        have st: "rebin_cube_st ax_out ax_in ac h =
            (case ?loop of (h3, Inl e) \<Rightarrow> (h3, Inl e) | (h3, Inr u) \<Rightarrow> (h3, Inr ?t))"
          using assms(1,2,3) Inr d False dx in_i
          by (simp add: rebin_cube_st_def get_vec_def get_cub_def alloc_def)
        have pb: "rebin_cube_box xout xin c dx_in dx_out =
            bindE (mapE (\<lambda>i. bindE (box_bin in_i ?n (length xin) i) (cube_plane c)) [0..<?n])
              (\<lambda>ps. Inr \<lparr>shape1 = shape1 c, shape2 = shape2 c, planes = ps\<rparr>)"
          using dx in_i by (simp add: rebin_cube_box_def)
        show ?thesis
          using cube_box_loops[OF h2(1,2) ne _ h2(3,4), of ?n "length xin"] st pu pb
          by (cases "mapE (\<lambda>i. bindE (box_bin in_i ?n (length xin) i) (cube_plane c)) [0..<?n]")
             auto
      qed
    qed
  qed
qed

subsection \<open>The frame property\<close>

text \<open>
  Claim C9: none of the three rebinning functions mutates an input array, and the array
  each returns is freshly allocated. For every heap and every argument addresses (equal
  or not), after \<^verbatim>\<open>rebin1d\<close>, \<^verbatim>\<open>rebin_cube_1d\<close> or \<^verbatim>\<open>frebin2d\<close> every array that was
  allocated before the call, so the grids, the values, the cube and the plane, holds what
  it held before, also when the call raises; and a returned address was allocated during
  the call, so it differs from the address of every input.
\<close>

theorem rebinners_frame:
  "fresh_result h (fst (rebin1d_st ax_out ax_in ay h)) (snd (rebin1d_st ax_out ax_in ay h))
   \<and> fresh_result h (fst (rebin_cube_st ax_out ax_in ac h)) (snd (rebin_cube_st ax_out ax_in ac h))
   \<and> fresh_result h (fst (frebin2d_st aa shape h)) (snd (frebin2d_st aa shape h))"
  using rebin1d_st_frame[of ax_out ax_in ay h] rebin_cube_st_frame[of ax_out ax_in ac h]
    frebin2d_st_frame[of aa shape h]
  by (simp add: prod_eq_iff)

theorem rebinners_frame_witness:
  "snd (rebin1d_st 0 1 2 example_heap) = Inr 5
   \<and> cells (fst (rebin1d_st 0 1 2 example_heap)) 5 = Some (VecF [Fin 1, Fin (5/2), Fin (9/2)])
   \<and> cells (fst (rebin1d_st 0 1 2 example_heap)) 0 = Some (Vec [0, 2, 4])
   \<and> cells (fst (rebin1d_st 0 1 2 example_heap)) 1 = Some (Vec [0, 1, 2, 3, 4])
   \<and> cells (fst (rebin1d_st 0 1 2 example_heap)) 2 = Some (Vec [1, 2, 3, 4, 5])
   \<and> snd (rebin_cube_st 0 1 3 example_heap) = Inr 5
   \<and> cells (fst (rebin_cube_st 0 1 3 example_heap)) 3
        = Some (Cub \<lparr>shape1 = 1, shape2 = 1, planes = [[[1]], [[2]], [[3]], [[4]], [[5]]]\<rparr>)
   \<and> snd (frebin2d_st 4 (1, 1) example_heap) = Inr 7
   \<and> cells (fst (frebin2d_st 4 (1, 1) example_heap)) 7 = Some (MatF [[Fin (5/2)]])
   \<and> cells (fst (frebin2d_st 4 (1, 1) example_heap)) 4 = Some (Mat [[1, 2], [3, 4]])"
proof -
  have r1: "snd (rebin1d_st 0 1 2 example_heap) = Inr 5"
    and c1: "cells (fst (rebin1d_st 0 1 2 example_heap)) 5
               = Some (VecF [Fin 1, Fin (5/2), Fin (9/2)])"
    and r2: "snd (rebin_cube_st 0 1 3 example_heap) = Inr 5"
    and r3: "snd (frebin2d_st 4 (1, 1) example_heap) = Inr 7"
    and c3: "cells (fst (frebin2d_st 4 (1, 1) example_heap)) 7 = Some (MatF [[Fin (5/2)]])"
    by code_simp+
  have n: "next_addr example_heap = 5"
    and i: "cells example_heap 0 = Some (Vec [0, 2, 4])"
      "cells example_heap 1 = Some (Vec [0, 1, 2, 3, 4])"
      "cells example_heap 2 = Some (Vec [1, 2, 3, 4, 5])"
      "cells example_heap 3
        = Some (Cub \<lparr>shape1 = 1, shape2 = 1, planes = [[[1]], [[2]], [[3]], [[4]], [[5]]]\<rparr>)"
      "cells example_heap 4 = Some (Mat [[1, 2], [3, 4]])"
    by (simp_all add: example_heap_def)
  have f: "frame example_heap (fst (rebin1d_st 0 1 2 example_heap))"
    "frame example_heap (fst (rebin_cube_st 0 1 3 example_heap))"
    "frame example_heap (fst (frebin2d_st 4 (1, 1) example_heap))"
    using rebinners_frame[of example_heap 0 1 2 3 4 "(1, 1)"] by (simp_all add: fresh_result_def)
  show ?thesis using f r1 c1 r2 r3 c3 i by (simp add: frame_def n)
qed

end
